theory Spec2Isabelle
  imports Complex_Main "HOL-Library.Multiset"
begin

section \<open>Go strings, runes and the library functions the daemon calls\<close>

text \<open>
  A Go string is a sequence of bytes; \<open>string\<close> (a list of 8-bit \<open>char\<close>) models it
  byte for byte, so \<open>length\<close> is Go's \<open>len\<close> and \<open>drop n\<close> is the slice \<open>s[n:]\<close>.
\<close>

definition byte_in :: "nat \<Rightarrow> nat \<Rightarrow> char \<Rightarrow> bool" where
  "byte_in lo hi c = (lo \<le> of_char c \<and> of_char c \<le> hi)"

definition is_digit :: "char \<Rightarrow> bool" where
  "is_digit c = byte_in 48 57 c"

text \<open>
  \<open>rune_width s\<close> is the number of bytes that decoding one rune at the front of \<open>s\<close>
  consumes (package \<open>unicode/utf8\<close>): the length of a well-formed UTF-8 sequence, and 1
  for a byte that starts none (the decoder then yields \<open>RuneError\<close> of width 1).
\<close>

fun rune_width :: "string \<Rightarrow> nat" where
  "rune_width [] = 0"
| "rune_width (b0 # s) =
     (if byte_in 0xC2 0xDF b0 then
        (case s of b1 # _ \<Rightarrow> if byte_in 0x80 0xBF b1 then 2 else 1 | _ \<Rightarrow> 1)
      else if byte_in 0xE0 0xEF b0 then
        (case s of
           b1 # b2 # _ \<Rightarrow>
             if byte_in (if of_char b0 = (0xE0::nat) then 0xA0 else 0x80)
                        (if of_char b0 = (0xED::nat) then 0x9F else 0xBF) b1
                \<and> byte_in 0x80 0xBF b2
             then 3 else 1
         | _ \<Rightarrow> 1)
      else if byte_in 0xF0 0xF4 b0 then
        (case s of
           b1 # b2 # b3 # _ \<Rightarrow>
             if byte_in (if of_char b0 = (0xF0::nat) then 0x90 else 0x80)
                        (if of_char b0 = (0xF4::nat) then 0x8F else 0xBF) b1
                \<and> byte_in 0x80 0xBF b2 \<and> byte_in 0x80 0xBF b3
             then 4 else 1
         | _ \<Rightarrow> 1)
      else 1)"

text \<open>
  \<open>for x := range s\<close> with a single variable binds \<open>x\<close> to the byte index at which each
  rune of \<open>s\<close> starts. \<open>range_from i k s\<close> lists these indices for the bytes \<open>s\<close> that
  start at index \<open>i\<close>, of which the first \<open>k\<close> still belong to the previous rune.
\<close>

fun range_from :: "nat \<Rightarrow> nat \<Rightarrow> string \<Rightarrow> nat list" where
  "range_from i k [] = []"
| "range_from i k (c # s) =
     (if 0 < k then range_from (Suc i) (k - 1) s
      else i # range_from (Suc i) (rune_width (c # s) - 1) s)"

definition range_indices :: "string \<Rightarrow> nat list" where
  "range_indices s = range_from 0 0 s"

text \<open>
  The conversion \<open>string(x)\<close> of an integer is the UTF-8 encoding of the code point \<open>x\<close>
  (the encoding of U+FFFD for a surrogate or a value beyond U+10FFFF).
\<close>

definition rune_string :: "nat \<Rightarrow> string" where
  "rune_string x =
     (if x < 0x80 then [char_of x]
      else if x < 0x800 then [char_of (0xC0 + x div 64), char_of (0x80 + x mod 64)]
      else if (0xD800 \<le> x \<and> x \<le> 0xDFFF) \<or> 0x10FFFF < x
        then [char_of (0xEF::nat), char_of (0xBF::nat), char_of (0xBD::nat)]
      else if x < 0x10000 then
        [char_of (0xE0 + x div 4096), char_of (0x80 + (x div 64) mod 64),
         char_of (0x80 + x mod 64)]
      else
        [char_of (0xF0 + x div 262144), char_of (0x80 + (x div 4096) mod 64),
         char_of (0x80 + (x div 64) mod 64), char_of (0x80 + x mod 64)])"

subsection \<open>strings.TrimSpace\<close>

text \<open>
  The white space of \<open>unicode.IsSpace\<close>: tab, line feed, vertical tab, form feed, carriage
  return, space, U+0085, U+00A0, U+1680, U+2000 to U+200A, U+2028, U+2029, U+202F, U+205F
  and U+3000, each as the bytes of its encoding.
\<close>

definition space_runes :: "string list" where
  "space_runes =
     [[CHR 0x09], [CHR 0x0A], [CHR 0x0B], [CHR 0x0C], [CHR 0x0D], [CHR 0x20],
      [CHR 0xC2, CHR 0x85], [CHR 0xC2, CHR 0xA0], [CHR 0xE1, CHR 0x9A, CHR 0x80],
      [CHR 0xE2, CHR 0x80, CHR 0x80], [CHR 0xE2, CHR 0x80, CHR 0x81],
      [CHR 0xE2, CHR 0x80, CHR 0x82], [CHR 0xE2, CHR 0x80, CHR 0x83],
      [CHR 0xE2, CHR 0x80, CHR 0x84], [CHR 0xE2, CHR 0x80, CHR 0x85],
      [CHR 0xE2, CHR 0x80, CHR 0x86], [CHR 0xE2, CHR 0x80, CHR 0x87],
      [CHR 0xE2, CHR 0x80, CHR 0x88], [CHR 0xE2, CHR 0x80, CHR 0x89],
      [CHR 0xE2, CHR 0x80, CHR 0x8A], [CHR 0xE2, CHR 0x80, CHR 0xA8],
      [CHR 0xE2, CHR 0x80, CHR 0xA9], [CHR 0xE2, CHR 0x80, CHR 0xAF],
      [CHR 0xE2, CHR 0x81, CHR 0x9F], [CHR 0xE3, CHR 0x80, CHR 0x80]]"

text \<open>\<open>strip ws s\<close> removes from the front of \<open>s\<close> every leading occurrence of a member of \<open>ws\<close>.\<close>

function strip :: "string list \<Rightarrow> string \<Rightarrow> string" where
  "strip ws s =
     (case find (\<lambda>w. w \<noteq> [] \<and> take (length w) s = w) ws of
        None \<Rightarrow> s
      | Some w \<Rightarrow> strip ws (drop (length w) s))"
  by pat_completeness auto
termination
proof (relation "measure (\<lambda>(ws, s). length s)")
  show "wf (measure (\<lambda>(ws, s). length s))" by simp
next
  fix ws :: "string list" and s w :: string
  assume "find (\<lambda>w. w \<noteq> [] \<and> take (length w) s = w) ws = Some w"
  then have w: "w \<noteq> []" and t: "take (length w) s = w"
    by (auto simp: find_Some_iff)
  from t have "length (take (length w) s) = length w"
    by simp
  then have "length w \<le> length s"
    by simp
  with w have "length s - length w < length s"
    by (cases w) auto
  then show "((ws, drop (length w) s), (ws, s)) \<in> measure (\<lambda>(ws, s). length s)"
    by simp
qed

text \<open>
  \<open>TrimSpace\<close> drops the white-space runes at the front and then those at the end.
\<close>

definition TrimSpace :: "string \<Rightarrow> string" where
  "TrimSpace s = rev (strip (map rev space_runes) (rev (strip space_runes s)))"

subsection \<open>Package regexp\<close>

text \<open>
  The fragment of the regular-expression syntax that the three patterns of the daemon use:
  a literal string, a character range, concatenation, alternation and one-or-more.
\<close>

datatype rx = Lit string | Rng char char | Cat rx rx | Alt rx rx | Plus rx

text \<open>
  \<open>rx_rests r s\<close> lists, in the order of preference of a leftmost-first (backtracking)
  matcher, what remains of \<open>s\<close> after each way of matching \<open>r\<close> at the front of \<open>s\<close>:
  alternatives from left to right, repetition greedy.
\<close>

function rx_rests :: "rx \<Rightarrow> string \<Rightarrow> string list" where
  "rx_rests (Lit l) s = (if take (length l) s = l then [drop (length l) s] else [])"
| "rx_rests (Rng a b) s =
     (case s of [] \<Rightarrow> []
      | c # t \<Rightarrow> if byte_in (of_char a) (of_char b) c then [t] else [])"
| "rx_rests (Cat r1 r2) s = concat (map (rx_rests r2) (rx_rests r1 s))"
| "rx_rests (Alt r1 r2) s = rx_rests r1 s @ rx_rests r2 s"
| "rx_rests (Plus r) s =
     concat (map (\<lambda>t. (if length t < length s then rx_rests (Plus r) t else []) @ [t])
                 (rx_rests r s))"
  by pat_completeness auto
termination
  by (relation "inv_image (less_than <*lex*> less_than) (\<lambda>(r, s). (size r, length s))") auto

text \<open>The preferred match of \<open>r\<close> that starts at the front of \<open>s\<close>.\<close>

definition rx_match :: "rx \<Rightarrow> string \<Rightarrow> string option" where
  "rx_match r s =
     (case rx_rests r s of [] \<Rightarrow> None | t # _ \<Rightarrow> Some (take (length s - length t) s))"

text \<open>
  The search of \<open>Regexp.Find\<close> is not anchored: it returns the match that starts
  leftmost in its argument. \<open>rx_search r s\<close> gives the offset at which that match starts
  and the match.
\<close>

fun rx_search :: "rx \<Rightarrow> string \<Rightarrow> (nat \<times> string) option" where
  "rx_search r [] = (case rx_match r [] of None \<Rightarrow> None | Some m \<Rightarrow> Some (0, m))"
| "rx_search r (c # s) =
     (case rx_match r (c # s) of
        Some m \<Rightarrow> Some (0, m)
      | None \<Rightarrow> (case rx_search r s of None \<Rightarrow> None | Some (i, m) \<Rightarrow> Some (Suc i, m)))"

definition Find :: "rx \<Rightarrow> string \<Rightarrow> string option" where
  "Find r s = map_option snd (rx_search r s)"

text \<open>
  \<open>FindAllString r s (-1)\<close>: the successive non-overlapping leftmost matches. The library's
  bookkeeping for empty matches is left out: an empty match ends the enumeration here. The
  one pattern that the daemon passes to it, \<open>[0-9]+\<close>, never matches the empty string.
\<close>

function FindAllString :: "rx \<Rightarrow> string \<Rightarrow> string list" where
  "FindAllString r s =
     (case rx_search r s of
        None \<Rightarrow> []
      | Some (i, m) \<Rightarrow> if m = [] then [] else m # FindAllString r (drop (i + length m) s))"
  by pat_completeness auto
termination
proof (relation "measure (\<lambda>(r, s). length s)")
  show "wf (measure (\<lambda>(r :: rx, s :: string). length s))" by simp
next
  fix r :: rx and s m :: string and x :: "nat \<times> string" and i :: nat
  assume found: "rx_search r s = Some x" and x: "(i, m) = x" and m: "m \<noteq> []"
  have "i + length m \<le> length s"
    using found x
  proof (induction s arbitrary: i x)
    case Nil
    then show ?case
      by (auto simp: rx_match_def split: option.splits list.splits)
  next
    case (Cons c s)
    show ?case
    proof (cases "rx_match r (c # s)")
      case None
      with Cons.prems obtain j where "rx_search r s = Some (j, m)" and "i = Suc j"
        by (auto split: option.splits)
      with Cons.IH [of "(j, m)" j] show ?thesis
        by simp
    next
      case (Some m')
      with Cons.prems have "i = 0" and "m' = m"
        by auto
      with Some show ?thesis
        by (auto simp: rx_match_def split: list.splits)
    qed
  qed
  with m have "length s - (i + length m) < length s"
    by (cases m) auto
  then show "((r, drop (i + length m) s), (r, s)) \<in> measure (\<lambda>(r, s). length s)"
    by simp
qed

subsection \<open>strconv.Atoi and the conversion to float64\<close>

definition digits_val :: "string \<Rightarrow> int" where
  "digits_val ds = foldl (\<lambda>n c. 10 * n + (of_char c - 48)) 0 ds"

text \<open>
  \<open>Atoi s\<close> gives the value and whether the error is non-nil. Go's \<open>int\<close> has 64 bits on
  the platforms the daemon is built for: a decimal beyond the range yields the nearest
  bound together with a range error, a malformed one yields 0 with a syntax error.
\<close>

definition Atoi :: "string \<Rightarrow> int \<times> bool" where
  "Atoi s =
     (let neg = (s \<noteq> [] \<and> hd s = CHR ''-'');
          ds = (if s \<noteq> [] \<and> (hd s = CHR ''+'' \<or> hd s = CHR ''-'') then tl s else s);
          n = digits_val ds
      in if ds = [] \<or> \<not> list_all is_digit ds then (0, True)
         else if \<not> neg \<and> 2 ^ 63 \<le> n then (2 ^ 63 - 1, True)
         else if neg \<and> 2 ^ 63 < n then (- (2 ^ 63), True)
         else (if neg then - n else n, False))"

function bitlen :: "int \<Rightarrow> nat" where
  "bitlen n = (if n \<le> 0 then 0 else Suc (bitlen (n div 2)))"
  by pat_completeness auto
termination
  by (relation "measure nat") auto

text \<open>
  A \<open>float64\<close> that holds a whole number is represented by that number. \<open>float64 n\<close> is the
  conversion of the integer \<open>n\<close>: exact below \<open>2 ^ 53\<close>, and beyond it rounded to 53
  significant bits, ties to the even significand.
\<close>

definition float64 :: "int \<Rightarrow> int" where
  "float64 n =
     (let m = \<bar>n\<bar>;
          e = bitlen m - 53;
          q = m div 2 ^ e;
          r = m mod 2 ^ e;
          q' = (if 2 * r > 2 ^ e \<or> (2 * r = 2 ^ e \<and> odd q) then q + 1 else q)
      in (if n < 0 then - 1 else 1) * (q' * 2 ^ e))"

section \<open>The parser of \<open>daemon.go\<close>\<close>

datatype error = SliceOutOfRange | IndexOutOfRange | MustCompilePanic

datatype Data = Data (val: int)

record Expr =
  buffer :: string
  position :: nat
  action :: string
  point :: "int list"
  data :: Data
  valid :: bool

text \<open>\<open>expr.buffer[expr.position:]\<close> panics when the position lies beyond the buffer.\<close>

definition Current :: "Expr \<Rightarrow> error + string" where
  "Current expr =
     (if position expr \<le> length (buffer expr)
      then Inr (drop (position expr) (buffer expr)) else Inl SliceOutOfRange)"

text \<open>
  The loop of \<open>SkipWhitespace\<close> over the indices \<open>x\<close> of the range: it compares
  \<open>string(x)\<close>, the encoding of the index taken as a code point, with \<open>" "\<close>.
\<close>

fun skip_loop :: "nat list \<Rightarrow> Expr \<Rightarrow> Expr" where
  "skip_loop [] expr = expr"
| "skip_loop (x # xs) expr =
     (if rune_string x \<noteq> '' '' then expr
      else skip_loop xs (expr\<lparr>position := position expr + 1\<rparr>))"

definition SkipWhitespace :: "Expr \<Rightarrow> error + Expr" where
  "SkipWhitespace expr =
     (case Current expr of
        Inl err \<Rightarrow> Inl err
      | Inr cur \<Rightarrow> Inr (skip_loop (range_indices cur) expr))"

text \<open>The three patterns of the source, compiled.\<close>

definition digits_rx :: rx where
  "digits_rx = Plus (Rng CHR ''0'' CHR ''9'')"

definition action_rx :: rx where
  "action_rx = Alt (Lit ''ADD'') (Alt (Lit ''DEL'') (Alt (Lit ''KNN'') (Lit ''END'')))"

definition point_rx :: rx where
  "point_rx = Cat (Lit ''{'') (Cat digits_rx (Cat (Lit '', '') (Cat digits_rx (Lit ''}''))))"

text \<open>
  \<open>regexp.Compile\<close> on the pattern strings that occur in the source (in the second one
  the brace opens no repetition count and is a literal). No other pattern is ever
  compiled by the daemon; for any other string this table answers \<open>None\<close>, the value that
  also stands for a pattern that does not compile.
\<close>

definition Compile :: "string \<Rightarrow> rx option" where
  "Compile token =
     (if token = ''ADD|DEL|KNN|END'' then Some action_rx
      else if token = ''{[0-9]+, [0-9]+}'' then Some point_rx
      else if token = ''[0-9]+'' then Some digits_rx
      else None)"

definition Match :: "Expr \<Rightarrow> string \<Rightarrow> error + ((string \<times> bool) \<times> Expr)" where
  "Match expr token =
     (case SkipWhitespace expr of
        Inl err \<Rightarrow> Inl err
      | Inr e1 \<Rightarrow>
          (case Compile token of
             None \<Rightarrow> Inr (([], False), e1)
           | Some re \<Rightarrow>
               (case Current e1 of
                  Inl err \<Rightarrow> Inl err
                | Inr cur \<Rightarrow>
                    (case Find re cur of
                       Some m \<Rightarrow> Inr ((m, True), e1\<lparr>position := position e1 + length m\<rparr>)
                     | None \<Rightarrow> Inr (([], False), e1)))))"

text \<open>
  \<open>MakePoint\<close>: \<open>regexp.MustCompile\<close> panics on a pattern that does not compile, and the
  index expressions \<open>rst[0]\<close> and \<open>rst[1]\<close> panic when \<open>rst\<close> is too short. The errors that
  \<open>Atoi\<close> reports are discarded, as in the source.
\<close>

definition MakePoint :: "string \<Rightarrow> error + int list" where
  "MakePoint p =
     (case Compile ''[0-9]+'' of
        None \<Rightarrow> Inl MustCompilePanic
      | Some re \<Rightarrow>
          (case FindAllString re p of
             a # b # _ \<Rightarrow> Inr [float64 (fst (Atoi a)), float64 (fst (Atoi b))]
           | _ \<Rightarrow> Inl IndexOutOfRange))"

definition IsAction :: "Expr \<Rightarrow> error + (bool \<times> Expr)" where
  "IsAction expr =
     (case Match expr ''ADD|DEL|KNN|END'' of
        Inl err \<Rightarrow> Inl err
      | Inr ((token, status), e1) \<Rightarrow>
          if status then Inr (True, e1\<lparr>action := token\<rparr>)
          else Inr (False, e1\<lparr>position := 0\<rparr>))"

definition IsEndAction :: "Expr \<Rightarrow> error + (bool \<times> Expr)" where
  "IsEndAction expr =
     (case IsAction expr of
        Inl err \<Rightarrow> Inl err
      | Inr (rst, e1) \<Rightarrow>
          if action e1 = ''END'' then Inr (rst, e1) else Inr (False, e1\<lparr>position := 0\<rparr>))"

definition IsPoint :: "Expr \<Rightarrow> error + (bool \<times> Expr)" where
  "IsPoint expr =
     (case Match expr ''{[0-9]+, [0-9]+}'' of
        Inl err \<Rightarrow> Inl err
      | Inr ((token, status), e1) \<Rightarrow>
          if status then
            (case MakePoint token of
               Inl err \<Rightarrow> Inl err
             | Inr p \<Rightarrow> Inr (True, e1\<lparr>point := p\<rparr>))
          else Inr (False, e1\<lparr>position := 0\<rparr>))"

definition IsData :: "Expr \<Rightarrow> error + (bool \<times> Expr)" where
  "IsData expr =
     (case Match expr ''[0-9]+'' of
        Inl err \<Rightarrow> Inl err
      | Inr ((token, status), e1) \<Rightarrow>
          if status then Inr (True, e1\<lparr>data := Data (fst (Atoi token))\<rparr>)
          else Inr (False, e1\<lparr>position := 0\<rparr>))"

text \<open>
  Go's \<open>f(expr) && g(expr)\<close> and \<open>f(expr) || g(expr)\<close> on functions that update the
  expression behind the pointer: the right operand runs on the state the left one
  leaves, and only when the left one does not decide the result.
\<close>

definition and_then ::
  "(Expr \<Rightarrow> error + (bool \<times> Expr)) \<Rightarrow> (Expr \<Rightarrow> error + (bool \<times> Expr))
     \<Rightarrow> Expr \<Rightarrow> error + (bool \<times> Expr)" where
  "and_then f g expr =
     (case f expr of
        Inl err \<Rightarrow> Inl err
      | Inr (b, e1) \<Rightarrow> if b then g e1 else Inr (False, e1))"

definition or_else ::
  "(Expr \<Rightarrow> error + (bool \<times> Expr)) \<Rightarrow> (Expr \<Rightarrow> error + (bool \<times> Expr))
     \<Rightarrow> Expr \<Rightarrow> error + (bool \<times> Expr)" where
  "or_else f g expr =
     (case f expr of
        Inl err \<Rightarrow> Inl err
      | Inr (b, e1) \<Rightarrow> if b then Inr (True, e1) else g e1)"

definition IsCommand :: "Expr \<Rightarrow> error + (bool \<times> Expr)" where
  "IsCommand = and_then (and_then IsAction IsPoint) IsData"

definition IsAddCommand :: "Expr \<Rightarrow> error + (bool \<times> Expr)" where
  "IsAddCommand expr =
     (case IsCommand expr of
        Inl err \<Rightarrow> Inl err
      | Inr (rst, e1) \<Rightarrow>
          if action e1 = ''ADD'' then Inr (rst, e1) else Inr (False, e1\<lparr>position := 0\<rparr>))"

definition IsKnnCommand :: "Expr \<Rightarrow> error + (bool \<times> Expr)" where
  "IsKnnCommand expr =
     (case IsCommand expr of
        Inl err \<Rightarrow> Inl err
      | Inr (rst, e1) \<Rightarrow>
          if action e1 = ''KNN'' then Inr (rst, e1) else Inr (False, e1\<lparr>position := 0\<rparr>))"

definition IsPartialCommand :: "Expr \<Rightarrow> error + (bool \<times> Expr)" where
  "IsPartialCommand = and_then IsAction IsPoint"

definition IsDelCommand :: "Expr \<Rightarrow> error + (bool \<times> Expr)" where
  "IsDelCommand expr =
     (case IsPartialCommand expr of
        Inl err \<Rightarrow> Inl err
      | Inr (rst, e1) \<Rightarrow>
          if action e1 = ''DEL'' then Inr (rst, e1) else Inr (False, e1\<lparr>position := 0\<rparr>))"

definition IsFullCommand :: "Expr \<Rightarrow> error + (bool \<times> Expr)" where
  "IsFullCommand = or_else IsAddCommand IsKnnCommand"

text \<open>The zero value of \<open>Expr\<close> with the trimmed command as its buffer.\<close>

definition new_Expr :: "string \<Rightarrow> Expr" where
  "new_Expr command =
     \<lparr>buffer = command, position = 0, action = [], point = [], data = Data 0, valid = False\<rparr>"

definition ParseKDtreeCommand :: "string \<Rightarrow> error + Expr" where
  "ParseKDtreeCommand command =
     (case or_else (or_else IsFullCommand IsDelCommand) IsEndAction
             (new_Expr (TrimSpace command)) of
        Inl err \<Rightarrow> Inl err
      | Inr (v, expr) \<Rightarrow> Inr (if v then expr\<lparr>valid := True\<rparr> else expr))"

section \<open>The session loop\<close>

text \<open>
  The index is the tree of the library \<open>github.com/kyroy/kdtree\<close>, whose code is not part
  of the daemon. The session loop takes its three operations as a parameter: \<open>'s\<close> is the
  state of the tree and \<open>'r\<close> the result of a query.
\<close>

record ('s, 'r) kdtree =
  Insert :: "int list \<Rightarrow> Data \<Rightarrow> 's \<Rightarrow> 's"
  Remove :: "int list \<Rightarrow> 's \<Rightarrow> 's"
  KNN :: "int list \<Rightarrow> int \<Rightarrow> 's \<Rightarrow> 'r"

text \<open>
  What one call of \<open>bufio.NewReader(connection).ReadString('\n')\<close> returns: an error, or
  the data read up to and including the delimiter.
\<close>

datatype read = ReadErr | ReadLine string

text \<open>
  What a session does to the outside, in order. \<open>Write\<close> carries the bytes written to the
  connection. \<open>WriteAdded p\<close> and \<open>WriteDeleted p\<close> stand for the write of
  \<open>fmt.Sprintf("%+v added\r\n", p)\<close> and \<open>fmt.Sprintf("%+v deleted\r\n", p)\<close>, and
  \<open>WriteKNN r\<close> for the write of \<open>fmt.Sprintf("%+v\r\n", r)\<close>: texts that the point or
  the result determines (the rendering by package \<open>fmt\<close> is not modelled). \<open>Lock\<close> and
  \<open>Unlock\<close> are the calls on the mutex of the store, \<open>Close\<close> is \<open>connection.Close()\<close>
  and \<open>Fatal\<close> is \<open>log.Fatal\<close>, which ends the process.
\<close>

datatype 'r event =
  Write string | WriteAdded "int list" | WriteDeleted "int list" | WriteKNN 'r
  | Lock | Unlock | Close | Fatal

text \<open>
  How the run of a session on a finite sequence of reads ends: still in the loop and waiting
  for the next read, returned after closing the connection, the whole process ended, or
  the goroutine panicked.
\<close>

datatype status = Reading | Closed | ProcessExit | Panicked error

definition crlf :: string where
  "crlf = [CHR 0x0D, CHR 0x0A]"

definition then_events ::
  "'r event list \<Rightarrow> 'r event list \<times> 's \<times> status \<Rightarrow> 'r event list \<times> 's \<times> status" where
  "then_events evs run = (case run of (tr, st, fin) \<Rightarrow> (evs @ tr, st, fin))"

subsection \<open>\<open>HandleRequest\<close> of \<open>daemon.go\<close>\<close>

text \<open>The \<open>switch\<close> on the action: the events and the store it leaves.\<close>

definition dispatch :: "('s, 'r) kdtree \<Rightarrow> Expr \<Rightarrow> 's \<Rightarrow> 'r event list \<times> 's" where
  "dispatch tree parsed st =
     (if action parsed = ''ADD'' then
        ([Lock, Unlock, WriteAdded (point parsed)], Insert tree (point parsed) (data parsed) st)
      else if action parsed = ''DEL'' then
        ([Lock, Unlock, WriteDeleted (point parsed)], Remove tree (point parsed) st)
      else if action parsed = ''KNN'' then
        ([WriteKNN (KNN tree (point parsed) (val (data parsed)) st)], st)
      else ([], st))"

fun session_loop ::
  "('s, 'r) kdtree \<Rightarrow> read list \<Rightarrow> 's \<Rightarrow> 'r event list \<times> 's \<times> status" where
  "session_loop tree [] st = ([], st, Reading)"
| "session_loop tree (ReadErr # rs) st =
     then_events [Write (''READ ERROR'' @ crlf)] (session_loop tree rs st)"
| "session_loop tree (ReadLine line # rs) st =
     (case ParseKDtreeCommand line of
        Inl err \<Rightarrow> ([], st, Panicked err)
      | Inr parsed \<Rightarrow>
          if \<not> valid parsed then
            then_events [Write (''INVALID COMMAND'' @ crlf)] (session_loop tree rs st)
          else if valid parsed \<and> action parsed = ''END'' then
            ([Write (''BYE!!!'' @ crlf), Close], st, Closed)
          else
            (case dispatch tree parsed st of
               (evs, st') \<Rightarrow> then_events evs (session_loop tree rs st')))"

definition HandleRequest ::
  "('s, 'r) kdtree \<Rightarrow> read list \<Rightarrow> 's \<Rightarrow> 'r event list \<times> 's \<times> status" where
  "HandleRequest tree rs st =
     then_events [Write (''Connected to kdtreed...'' @ crlf)] (session_loop tree rs st)"

subsection \<open>\<open>HandleRequest\<close> of the second source file\<close>

text \<open>
  The second file of the repository (\<open>part_000\<close>) holds the same parser and another
  \<open>HandleRequest\<close>: the tree is passed without a mutex, a read error goes to \<open>log.Fatal\<close>,
  and an invalid line or \<open>END\<close> leaves the loop without a response.
\<close>

definition dispatch_part_000 :: "('s, 'r) kdtree \<Rightarrow> Expr \<Rightarrow> 's \<Rightarrow> 'r event list \<times> 's" where
  "dispatch_part_000 tree parsed st =
     (if action parsed = ''ADD'' then
        ([WriteAdded (point parsed)], Insert tree (point parsed) (data parsed) st)
      else if action parsed = ''DEL'' then
        ([WriteDeleted (point parsed)], Remove tree (point parsed) st)
      else if action parsed = ''KNN'' then
        ([WriteKNN (KNN tree (point parsed) (val (data parsed)) st)], st)
      else ([], st))"

fun session_loop_part_000 ::
  "('s, 'r) kdtree \<Rightarrow> read list \<Rightarrow> 's \<Rightarrow> 'r event list \<times> 's \<times> status" where
  "session_loop_part_000 tree [] st = ([], st, Reading)"
| "session_loop_part_000 tree (ReadErr # rs) st = ([Fatal], st, ProcessExit)"
| "session_loop_part_000 tree (ReadLine line # rs) st =
     (case ParseKDtreeCommand line of
        Inl err \<Rightarrow> ([], st, Panicked err)
      | Inr parsed \<Rightarrow>
          if \<not> valid parsed then ([Close], st, Closed)
          else if valid parsed \<and> action parsed = ''END'' then ([Close], st, Closed)
          else
            (case dispatch_part_000 tree parsed st of
               (evs, st') \<Rightarrow> then_events evs (session_loop_part_000 tree rs st')))"

definition HandleRequest_part_000 ::
  "('s, 'r) kdtree \<Rightarrow> read list \<Rightarrow> 's \<Rightarrow> 'r event list \<times> 's \<times> status" where
  "HandleRequest_part_000 tree rs st =
     then_events [Write (''Connected to kdtreed...'' @ crlf)] (session_loop_part_000 tree rs st)"

subsection \<open>The calls on the mutex and on the tree\<close>

text \<open>
  The statements of the \<open>switch\<close> in the order of the source: \<open>Acquire\<close> and \<open>Release\<close>
  are \<open>store.Lock()\<close> and \<open>store.Unlock()\<close>, the three calls on the tree are named after
  the methods of the library, and \<open>Respond\<close> is the write of the response.
\<close>

datatype call =
  Acquire | Release | TreeInsert "int list" Data | TreeRemove "int list"
  | TreeKNN "int list" int | Respond

definition dispatch_calls :: "Expr \<Rightarrow> call list" where
  "dispatch_calls parsed =
     (if action parsed = ''ADD'' then
        [Acquire, TreeInsert (point parsed) (data parsed), Release, Respond]
      else if action parsed = ''DEL'' then
        [Acquire, TreeRemove (point parsed), Release, Respond]
      else if action parsed = ''KNN'' then
        [TreeKNN (point parsed) (val (data parsed)), Respond]
      else [])"

definition dispatch_calls_part_000 :: "Expr \<Rightarrow> call list" where
  "dispatch_calls_part_000 parsed =
     (if action parsed = ''ADD'' then [TreeInsert (point parsed) (data parsed), Respond]
      else if action parsed = ''DEL'' then [TreeRemove (point parsed), Respond]
      else if action parsed = ''KNN'' then
        [TreeKNN (point parsed) (val (data parsed)), Respond]
      else [])"

text \<open>What a call does to the state of the tree.\<close>

fun run_call :: "('s, 'r) kdtree \<Rightarrow> 's \<Rightarrow> call \<Rightarrow> 's" where
  "run_call tree st (TreeInsert p d) = Insert tree p d st"
| "run_call tree st (TreeRemove p) = Remove tree p st"
| "run_call tree st c = st"

text \<open>The events of the mutex that a call leaves in the trace of the session.\<close>

fun mutex_events :: "call \<Rightarrow> 'r event list" where
  "mutex_events Acquire = [Lock]"
| "mutex_events Release = [Unlock]"
| "mutex_events c = []"

text \<open>
  The lock discipline on a sequence of calls, \<open>held\<close> telling whether the session holds
  the mutex before the first of them: the mutex is acquired only when it is not held and
  released only when it is held, every call on the tree is made while it is held, and it is
  not held at the end.
\<close>

fun under_lock :: "bool \<Rightarrow> call list \<Rightarrow> bool" where
  "under_lock held [] = (\<not> held)"
| "under_lock held (Acquire # cs) = (\<not> held \<and> under_lock True cs)"
| "under_lock held (Release # cs) = (held \<and> under_lock False cs)"
| "under_lock held (TreeInsert p d # cs) = (held \<and> under_lock held cs)"
| "under_lock held (TreeRemove p # cs) = (held \<and> under_lock held cs)"
| "under_lock held (TreeKNN p k # cs) = (held \<and> under_lock held cs)"
| "under_lock held (Respond # cs) = under_lock held cs"

section \<open>The spatial store\<close>

text \<open>
  Modelled from the spec: the operations Insert, Delete and KNearest of the spatial store,
  which the daemon takes from the library \<open>github.com/kyroy/kdtree\<close> (\<open>Insert\<close>, \<open>Remove\<close>,
  \<open>KNN\<close>) and whose code is missing from the sources. The store is the sequence of its
  records in the order of insertion. Insert adds a record unconditionally; Delete removes
  every record whose point equals the argument; KNearest returns up to \<open>k\<close> records in
  ascending Euclidean distance from the query point, ties in the order of the store, and
  the empty sequence for \<open>k \<le> 0\<close>.
\<close>

type_synonym record_store = "(int list \<times> Data) list"

definition store_Insert :: "int list \<Rightarrow> Data \<Rightarrow> record_store \<Rightarrow> record_store" where
  "store_Insert p d s = s @ [(p, d)]"

definition store_Delete :: "int list \<Rightarrow> record_store \<Rightarrow> record_store" where
  "store_Delete p s = filter (\<lambda>r. fst r \<noteq> p) s"

text \<open>
  The square of the Euclidean distance of two points; the distances themselves are in the
  same order as their squares.
\<close>

definition dist2 :: "int list \<Rightarrow> int list \<Rightarrow> int" where
  "dist2 p q = sum_list (map (\<lambda>(a, b). (a - b) ^ 2) (zip p q))"

definition store_KNearest :: "int list \<Rightarrow> int \<Rightarrow> record_store \<Rightarrow> (int list \<times> Data) list" where
  "store_KNearest q k s = (if k \<le> 0 then [] else take (nat k) (sort_key (\<lambda>r. dist2 q (fst r)) s))"

definition spec_store :: "(record_store, (int list \<times> Data) list) kdtree" where
  "spec_store = \<lparr>Insert = store_Insert, Remove = store_Delete, KNN = store_KNearest\<rparr>"

section \<open>Invariants used in the proofs\<close>

text \<open>The cursor lies inside the buffer, so that \<open>Current\<close> does not panic.\<close>

definition in_bounds :: "Expr \<Rightarrow> bool" where
  "in_bounds expr = (position expr \<le> length (buffer expr))"

text \<open>
  A parsing function is safe when, started inside the buffer, it returns without a panic,
  leaves the buffer as it is and leaves the cursor inside it.
\<close>

definition safe :: "(Expr \<Rightarrow> error + (bool \<times> Expr)) \<Rightarrow> bool" where
  "safe f =
     (\<forall>expr. in_bounds expr \<longrightarrow>
        (\<exists>b e'. f expr = Inr (b, e') \<and> buffer e' = buffer expr \<and> in_bounds e'))"


section \<open>The library model\<close>

declare strip.simps [simp del] FindAllString.simps [simp del] bitlen.simps [simp del]

lemma rune_string_0: "rune_string 0 \<noteq> '' ''"
proof
  assume "rune_string 0 = '' ''"
  then have "char_of (0::nat) = CHR '' ''"
    by (simp add: rune_string_def)
  then have "(of_char (char_of (0::nat)) :: nat) = of_char CHR '' ''"
    by (rule arg_cong)
  then show False
    by simp
qed

lemma skip_loop_range: "skip_loop (range_indices cur) expr = expr"
  by (cases cur) (simp_all add: range_indices_def rune_string_0)

lemma SkipWhitespace_eq:
  "position expr \<le> length (buffer expr) \<Longrightarrow> SkipWhitespace expr = Inr expr"
  by (simp add: SkipWhitespace_def Current_def skip_loop_range)

lemma Match_eq:
  "position expr \<le> length (buffer expr) \<Longrightarrow>
   Compile token = Some re \<Longrightarrow>
   Match expr token =
     Inr (case Find re (drop (position expr) (buffer expr)) of
            Some m \<Rightarrow> ((m, True), expr\<lparr>position := position expr + length m\<rparr>)
          | None \<Rightarrow> (([], False), expr))"
  by (simp add: Match_def SkipWhitespace_eq Current_def split: option.splits)

lemma rx_match_length: "rx_match r s = Some m \<Longrightarrow> length m \<le> length s"
  by (auto simp: rx_match_def split: list.splits)

lemma rx_search_bound: "rx_search r s = Some (i, m) \<Longrightarrow> i + length m \<le> length s"
proof (induction s arbitrary: i)
  case Nil
  then show ?case
    by (auto split: option.splits dest: rx_match_length)
next
  case (Cons c s)
  then show ?case
    by (fastforce split: option.splits dest: rx_match_length)
qed

lemma Find_length: "Find r s = Some m \<Longrightarrow> length m \<le> length s"
  by (auto simp: Find_def dest: rx_search_bound)

lemma is_digit_chars:
  "is_digit c \<Longrightarrow> c \<noteq> CHR ''{'' \<and> c \<noteq> CHR ''}'' \<and> c \<noteq> CHR '','' \<and> c \<noteq> CHR '' ''"
  by (auto simp: is_digit_def byte_in_def)

lemma rests_digit: "rx_rests (Rng CHR ''0'' CHR ''9'') s =
  (case s of [] \<Rightarrow> [] | c # t \<Rightarrow> if is_digit c then [t] else [])"
  by (simp add: is_digit_def split: list.splits)


lemma digits_unfold:
  "rx_rests digits_rx [] = []"
  "rx_rests digits_rx (c # t) = (if is_digit c then rx_rests digits_rx t @ [t] else [])"
  by (simp_all add: digits_rx_def is_digit_def)

lemma dropWhile_none: "takeWhile P s = [] \<Longrightarrow> dropWhile P s = s"
  by (cases s) (auto split: if_splits)

lemma digits_then:
  assumes "\<And>c t. is_digit c \<Longrightarrow> rx_rests R (c # t) = []"
  shows "concat (map (rx_rests R) (rx_rests digits_rx s)) =
           (if takeWhile is_digit s = [] then [] else rx_rests R (dropWhile is_digit s))"
proof (induction s)
  case Nil
  show ?case by (simp add: digits_unfold)
next
  case (Cons c s)
  show ?case
  proof (cases "is_digit c")
    case False
    then show ?thesis by (simp add: digits_unfold)
  next
    case True
    show ?thesis
    proof (cases "takeWhile is_digit s = []")
      case True
      with \<open>is_digit c\<close> Cons.IH show ?thesis
        by (simp add: digits_unfold dropWhile_none)
    next
      case False
      then obtain d s' where "s = d # s'" and "is_digit d"
        by (cases s) (auto split: if_splits)
      with assms have "rx_rests R s = []"
        by simp
      with \<open>is_digit c\<close> False Cons.IH show ?thesis
        by (simp add: digits_unfold)
    qed
  qed
qed

lemma digits_head:
  "takeWhile is_digit s \<noteq> [] \<Longrightarrow> \<exists>rest. rx_rests digits_rx s = dropWhile is_digit s # rest"
proof (induction s)
  case Nil
  then show ?case by simp
next
  case (Cons c s)
  then have c: "is_digit c"
    by (auto split: if_splits)
  show ?case
  proof (cases "takeWhile is_digit s = []")
    case True
    with c have "rx_rests digits_rx s = []"
      by (cases s) (auto simp: digits_unfold split: if_splits)
    with c True show ?thesis
      by (simp add: digits_unfold dropWhile_none)
  next
    case False
    with Cons.IH obtain rest where "rx_rests digits_rx s = dropWhile is_digit s # rest"
      by blast
    with c show ?thesis
      by (simp add: digits_unfold)
  qed
qed

lemma digits_none: "takeWhile is_digit s = [] \<Longrightarrow> rx_rests digits_rx s = []"
  by (cases s) (auto simp: digits_unfold split: if_splits)

lemma take_minus_dropWhile: "take (length s - length (dropWhile P s)) s = takeWhile P s"
proof -
  have "length s = length (takeWhile P s) + length (dropWhile P s)"
    by (metis length_append takeWhile_dropWhile_id)
  then have "length s - length (dropWhile P s) = length (takeWhile P s)"
    by simp
  then show ?thesis
    by (metis append_eq_conv_conj takeWhile_dropWhile_id)
qed

lemma match_digits:
  "rx_match digits_rx s =
     (if takeWhile is_digit s = [] then None else Some (takeWhile is_digit s))"
proof (cases "takeWhile is_digit s = []")
  case True
  then show ?thesis by (simp add: rx_match_def digits_none)
next
  case False
  from digits_head [OF False] obtain rest
    where "rx_rests digits_rx s = dropWhile is_digit s # rest" ..
  with False show ?thesis
    by (simp add: rx_match_def take_minus_dropWhile)
qed

lemma take_minus_drop:
  assumes "take n s = l" and "length l = n"
  shows "take (length s - length (drop n s)) s = l"
proof -
  from assms have "length (take n s) = n"
    by simp
  then have "n \<le> length s"
    by simp
  then have "length s - length (drop n s) = n"
    by simp
  with assms show ?thesis
    by simp
qed

lemma rests_action:
  "rx_rests action_rx s =
     (if take 3 s \<in> {''ADD'', ''DEL'', ''KNN'', ''END''} then [drop 3 s] else [])"
  by (auto simp: action_rx_def numeral_3_eq_3)

lemma match_action:
  "rx_match action_rx s =
     (if take 3 s \<in> {''ADD'', ''DEL'', ''KNN'', ''END''} then Some (take 3 s) else None)"
proof (cases "take 3 s \<in> {''ADD'', ''DEL'', ''KNN'', ''END''}")
  case True
  then have "take (length s - length (drop 3 s)) s = take 3 s"
    using take_minus_drop [of 3 s "''ADD''"] take_minus_drop [of 3 s "''DEL''"]
      take_minus_drop [of 3 s "''KNN''"] take_minus_drop [of 3 s "''END''"]
    by auto
  with True show ?thesis
    by (simp add: rx_match_def rests_action del: length_drop)
next
  case False
  then show ?thesis
    by (simp add: rx_match_def rests_action)
qed

lemma rests_Lit_then:
  "rx_rests (Cat (Lit l) R) s =
     (if take (length l) s = l then rx_rests R (drop (length l) s) else [])"
  by simp

lemma rests_digits_then:
  assumes "\<And>c t. is_digit c \<Longrightarrow> rx_rests R (c # t) = []"
  shows "rx_rests (Cat digits_rx R) s =
           (if takeWhile is_digit s = [] then [] else rx_rests R (dropWhile is_digit s))"
  using digits_then [OF assms] by simp

lemma rests_point:
  "rx_rests point_rx s =
     (if take 1 s = ''{'' \<and> takeWhile is_digit (drop 1 s) \<noteq> []
         \<and> take 2 (dropWhile is_digit (drop 1 s)) = '', ''
         \<and> takeWhile is_digit (drop 2 (dropWhile is_digit (drop 1 s))) \<noteq> []
         \<and> take 1 (dropWhile is_digit (drop 2 (dropWhile is_digit (drop 1 s)))) = ''}''
      then [drop 1 (dropWhile is_digit (drop 2 (dropWhile is_digit (drop 1 s))))]
      else [])"
proof -
  have a: "rx_rests (Lit ''}'') (c # t) = []" if "is_digit c" for c t
    using is_digit_chars [OF that] by auto
  have b: "rx_rests (Cat (Lit '', '') R) (c # t) = []" if "is_digit c" for c t R
    using is_digit_chars [OF that] by auto
  have "rx_rests point_rx s =
     (if take (length ''{'') s = ''{'' then
        (if takeWhile is_digit (drop (length ''{'') s) = [] then []
         else (if take (length '', '') (dropWhile is_digit (drop (length ''{'') s)) = '', ''
           then (if takeWhile is_digit (drop (length '', '') (dropWhile is_digit (drop (length ''{'') s))) = [] then []
                 else rx_rests (Lit ''}'') (dropWhile is_digit (drop (length '', '') (dropWhile is_digit (drop (length ''{'') s)))))
           else []))
      else [])"
    unfolding point_rx_def
    by (simp only: rests_Lit_then rests_digits_then [OF a] rests_digits_then [OF b])
  then show ?thesis
    by (simp add: numeral_2_eq_2)
qed


lemma rx_match_app: "rx_rests r (p @ g) = g # rest \<Longrightarrow> rx_match r (p @ g) = Some p"
  by (simp add: rx_match_def)

lemma match_point_shape:
  assumes "x \<noteq> []" "list_all is_digit x" "y \<noteq> []" "list_all is_digit y"
  shows "rx_match point_rx (''{'' @ x @ '', '' @ y @ ''}'' @ g) = Some (''{'' @ x @ '', '' @ y @ ''}'')"
proof -
  have nd: "\<not> is_digit CHR '',''" "\<not> is_digit CHR ''}''"
    by (simp_all add: is_digit_def byte_in_def)
  have tx: "takeWhile is_digit (x @ CHR '','' # t) = x"
    "dropWhile is_digit (x @ CHR '','' # t) = CHR '','' # t" for t
    using assms nd by (simp_all add: list_all_iff)
  have ty: "takeWhile is_digit (y @ CHR ''}'' # t) = y"
    "dropWhile is_digit (y @ CHR ''}'' # t) = CHR ''}'' # t" for t
    using assms nd by (simp_all add: list_all_iff)
  have "rx_rests point_rx ((''{'' @ x @ '', '' @ y @ ''}'') @ g) = [g]"
    using assms by (simp add: rests_point tx ty)
  then have "rx_match point_rx ((''{'' @ x @ '', '' @ y @ ''}'') @ g) = Some (''{'' @ x @ '', '' @ y @ ''}'')"
    by (rule rx_match_app)
  then show ?thesis
    by simp
qed

lemma match_point_form:
  assumes "rx_match point_rx s = Some m"
  shows "\<exists>x y. x \<noteq> [] \<and> list_all is_digit x \<and> y \<noteq> [] \<and> list_all is_digit y
           \<and> m = ''{'' @ x @ '', '' @ y @ ''}''"
proof -
  define s1 where "s1 = drop 1 s"
  define x where "x = takeWhile is_digit s1"
  define s2 where "s2 = dropWhile is_digit s1"
  define s3 where "s3 = drop 2 s2"
  define y where "y = takeWhile is_digit s3"
  define s4 where "s4 = dropWhile is_digit s3"
  define d where "d = drop 1 s4"
  define p where "p = ''{'' @ x @ '', '' @ y @ ''}''"
  from assms have c: "take 1 s = ''{''" "x \<noteq> []" "take 2 s2 = '', ''" "y \<noteq> []" "take 1 s4 = ''}''"
    and m: "m = take (length s - length d) s"
    unfolding x_def y_def s1_def s2_def s3_def s4_def d_def
    by (auto simp: rx_match_def rests_point split: if_splits)
  have e1: "s = ''{'' @ s1"
    using c(1) unfolding s1_def by (metis append_take_drop_id)
  have e2: "s1 = x @ s2"
    by (simp add: x_def s2_def)
  have e3: "s2 = '', '' @ s3"
    using c(3) unfolding s3_def by (metis append_take_drop_id)
  have e4: "s3 = y @ s4"
    by (simp add: y_def s4_def)
  have e5: "s4 = ''}'' @ d"
    using c(5) unfolding d_def by (metis append_take_drop_id)
  have "s = ''{'' @ (x @ ('', '' @ (y @ (''}'' @ d))))"
    using e1 e2 e3 e4 e5 by simp
  then have s: "s = p @ d"
    by (simp add: p_def)
  have "m = p"
    unfolding m s by simp
  moreover have "list_all is_digit x" "list_all is_digit y"
    by (auto simp: x_def y_def list_all_iff dest: set_takeWhileD)
  ultimately show ?thesis
    using c unfolding p_def by blast
qed

lemma match_point_head: "c \<noteq> CHR ''{'' \<Longrightarrow> rx_match point_rx (c # s) = None"
  by (simp add: rx_match_def rests_point)

lemma match_point_Nil: "rx_match point_rx [] = None"
  by (simp add: rx_match_def rests_point)


lemma search_skip:
  "rx_match r (c # s) = None \<Longrightarrow>
   rx_search r (c # s) = map_option (\<lambda>(i, m). (Suc i, m)) (rx_search r s)"
  by (simp split: option.splits)

lemma search_here: "rx_match r s = Some m \<Longrightarrow> rx_search r s = Some (0, m)"
  by (cases s) simp_all

lemma match_digits_nondigit: "\<not> is_digit c \<Longrightarrow> rx_match digits_rx (c # s) = None"
  by (simp add: match_digits)

lemma match_digits_Nil: "rx_match digits_rx [] = None"
  by (simp add: match_digits)

lemma match_digits_run:
  assumes "x \<noteq> []" "list_all is_digit x" "t = [] \<or> \<not> is_digit (hd t)"
  shows "rx_match digits_rx (x @ t) = Some x"
proof -
  from assms(3) have "takeWhile is_digit t = []"
    by (cases t) auto
  with assms(2) have "takeWhile is_digit (x @ t) = x"
    by (simp add: list_all_iff)
  with assms(1) show ?thesis
    by (simp add: match_digits)
qed

lemma search_found: "rx_search r s = Some (i, m) \<Longrightarrow> rx_match r (drop i s) = Some m"
proof (induction s arbitrary: i)
  case Nil
  then show ?case by (auto split: option.splits)
next
  case (Cons c s)
  then show ?case by (cases "rx_match r (c # s)") (auto split: option.splits)
qed

lemma Find_found: "Find r s = Some m \<Longrightarrow> \<exists>t. rx_match r t = Some m"
  by (auto simp: Find_def dest: search_found)

lemma nondigits: "\<not> is_digit CHR ''{''" "\<not> is_digit CHR '',''" "\<not> is_digit CHR '' ''"
  "\<not> is_digit CHR ''}''"
  by (simp_all add: is_digit_def byte_in_def)

lemma FindAll_point:
  assumes "x \<noteq> []" "list_all is_digit x" "y \<noteq> []" "list_all is_digit y"
  shows "FindAllString digits_rx (''{'' @ x @ '', '' @ y @ ''}'') = [x, y]"
proof -
  have mx: "rx_match digits_rx (x @ '', '' @ y @ ''}'') = Some x"
    using assms nondigits by (intro match_digits_run) simp_all
  have my: "rx_match digits_rx (y @ ''}'') = Some y"
    using assms nondigits by (intro match_digits_run) simp_all
  have 1: "rx_search digits_rx (''{'' @ x @ '', '' @ y @ ''}'') = Some (1, x)"
    using search_here [OF mx] by (simp add: search_skip match_digits_nondigit nondigits)
  have 2: "rx_search digits_rx ('', '' @ y @ ''}'') = Some (2, y)"
    using search_here [OF my] by (simp add: search_skip match_digits_nondigit nondigits)
  have 3: "rx_search digits_rx ''}'' = None"
    by (simp add: search_skip match_digits_nondigit nondigits match_digits_Nil)
  have d1: "drop (1 + length x) (''{'' @ x @ '', '' @ y @ ''}'') = '', '' @ y @ ''}''"
    by simp
  have d2: "drop (2 + length y) ('', '' @ y @ ''}'') = ''}''"
    by simp
  have "FindAllString digits_rx ''}'' = []"
    by (subst FindAllString.simps) (simp only: 3 option.case)
  then have "FindAllString digits_rx ('', '' @ y @ ''}'') = [y]"
    using assms by (subst FindAllString.simps) (simp only: 2 option.case prod.case d2 if_False)
  then show ?thesis
    using assms by (subst FindAllString.simps) (simp only: 1 option.case prod.case d1 if_False)
qed

lemma Compile_simps:
  "Compile ''ADD|DEL|KNN|END'' = Some action_rx"
  "Compile ''{[0-9]+, [0-9]+}'' = Some point_rx"
  "Compile ''[0-9]+'' = Some digits_rx"
  by (simp_all add: Compile_def)

lemma MakePoint_shape:
  assumes "x \<noteq> []" "list_all is_digit x" "y \<noteq> []" "list_all is_digit y"
  shows "MakePoint (''{'' @ x @ '', '' @ y @ ''}'') =
           Inr [float64 (fst (Atoi x)), float64 (fst (Atoi y))]"
  unfolding MakePoint_def
  by (simp only: Compile_simps option.case FindAll_point [OF assms] list.case)

lemma MakePoint_matched:
  assumes "Find point_rx s = Some m"
  shows "\<exists>p. MakePoint m = Inr p"
proof -
  from Find_found [OF assms] obtain t where "rx_match point_rx t = Some m" ..
  from match_point_form [OF this] obtain x y
    where "x \<noteq> []" "list_all is_digit x" "y \<noteq> []" "list_all is_digit y"
      and "m = ''{'' @ x @ '', '' @ y @ ''}''"
    by blast
  with MakePoint_shape [of x y] show ?thesis
    by blast
qed


lemma safeI:
  assumes "\<And>expr. in_bounds expr \<Longrightarrow>
             \<exists>b e'. f expr = Inr (b, e') \<and> buffer e' = buffer expr \<and> in_bounds e'"
  shows "safe f"
  using assms by (simp add: safe_def)

lemma safeD:
  assumes "safe f" and "in_bounds expr"
  obtains b e' where "f expr = Inr (b, e')" and "buffer e' = buffer expr" and "in_bounds e'"
  using assms unfolding safe_def by blast

lemma Match_in_bounds:
  assumes "in_bounds expr" and "Compile token = Some re"
  shows "\<exists>tok st e'. Match expr token = Inr ((tok, st), e') \<and> buffer e' = buffer expr
           \<and> in_bounds e'
           \<and> (st \<longrightarrow> Find re (drop (position expr) (buffer expr)) = Some tok)"
proof (cases "Find re (drop (position expr) (buffer expr))")
  case None
  with assms show ?thesis
    by (auto simp: Match_eq in_bounds_def)
next
  case (Some m)
  from Find_length [OF Some] assms(1) have "position expr + length m \<le> length (buffer expr)"
    by (simp add: in_bounds_def)
  with Some assms show ?thesis
    by (auto simp: Match_eq in_bounds_def)
qed

lemma safe_IsAction: "safe IsAction"
proof (rule safeI)
  fix expr assume "in_bounds expr"
  from Match_in_bounds [OF this Compile_simps(1)]
  show "\<exists>b e'. IsAction expr = Inr (b, e') \<and> buffer e' = buffer expr \<and> in_bounds e'"
    by (auto simp: IsAction_def in_bounds_def)
qed

lemma safe_IsData: "safe IsData"
proof (rule safeI)
  fix expr assume "in_bounds expr"
  from Match_in_bounds [OF this Compile_simps(3)]
  show "\<exists>b e'. IsData expr = Inr (b, e') \<and> buffer e' = buffer expr \<and> in_bounds e'"
    by (auto simp: IsData_def in_bounds_def)
qed

lemma safe_IsPoint: "safe IsPoint"
proof (rule safeI)
  fix expr assume "in_bounds expr"
  from Match_in_bounds [OF this Compile_simps(2)]
  obtain tok st e' where m: "Match expr ''{[0-9]+, [0-9]+}'' = Inr ((tok, st), e')"
    and e': "buffer e' = buffer expr" "in_bounds e'"
    and f: "st \<longrightarrow> Find point_rx (drop (position expr) (buffer expr)) = Some tok"
    by blast
  show "\<exists>b e'. IsPoint expr = Inr (b, e') \<and> buffer e' = buffer expr \<and> in_bounds e'"
  proof (cases st)
    case True
    with f MakePoint_matched obtain p where "MakePoint tok = Inr p"
      by blast
    with True m e' show ?thesis
      by (auto simp: IsPoint_def in_bounds_def)
  next
    case False
    with m e' show ?thesis
      by (auto simp: IsPoint_def in_bounds_def)
  qed
qed

lemma safe_and_then: "safe f \<Longrightarrow> safe g \<Longrightarrow> safe (and_then f g)"
  unfolding safe_def and_then_def by (fastforce split: sum.splits)

lemma safe_or_else: "safe f \<Longrightarrow> safe g \<Longrightarrow> safe (or_else f g)"
  unfolding safe_def or_else_def by (fastforce split: sum.splits)

lemma safe_reset:
  assumes "safe f"
  shows "safe (\<lambda>expr. case f expr of Inl err \<Rightarrow> Inl err
            | Inr (rst, e1) \<Rightarrow> if action e1 = a then Inr (rst, e1)
                else Inr (False, e1\<lparr>position := 0\<rparr>))"
proof (rule safeI)
  fix expr assume "in_bounds expr"
  with assms obtain b e' where "f expr = Inr (b, e')" "buffer e' = buffer expr" "in_bounds e'"
    by (rule safeD)
  then show "\<exists>b e'. (case f expr of Inl err \<Rightarrow> Inl err
            | Inr (rst, e1) \<Rightarrow> if action e1 = a then Inr (rst, e1)
                else Inr (False, e1\<lparr>position := 0\<rparr>)) = Inr (b, e') \<and> buffer e' = buffer expr \<and> in_bounds e'"
    by (auto simp: in_bounds_def)
qed

lemma safe_IsCommand: "safe IsCommand"
  unfolding IsCommand_def by (intro safe_and_then safe_IsAction safe_IsPoint safe_IsData)

lemma safe_IsPartialCommand: "safe IsPartialCommand"
  unfolding IsPartialCommand_def by (intro safe_and_then safe_IsAction safe_IsPoint)

lemma safe_IsAddCommand: "safe IsAddCommand"
  using safe_reset [OF safe_IsCommand, of "''ADD''"] by (simp add: IsAddCommand_def [abs_def])

lemma safe_IsKnnCommand: "safe IsKnnCommand"
  using safe_reset [OF safe_IsCommand, of "''KNN''"] by (simp add: IsKnnCommand_def [abs_def])

lemma safe_IsDelCommand: "safe IsDelCommand"
  using safe_reset [OF safe_IsPartialCommand, of "''DEL''"] by (simp add: IsDelCommand_def [abs_def])

lemma safe_IsEndAction: "safe IsEndAction"
  using safe_reset [OF safe_IsAction, of "''END''"] by (simp add: IsEndAction_def [abs_def])

lemma safe_IsFullCommand: "safe IsFullCommand"
  unfolding IsFullCommand_def by (intro safe_or_else safe_IsAddCommand safe_IsKnnCommand)

lemma safe_alternatives: "safe (or_else (or_else IsFullCommand IsDelCommand) IsEndAction)"
  by (intro safe_or_else safe_IsFullCommand safe_IsDelCommand safe_IsEndAction)

section \<open>Lines of the four command shapes\<close>


lemma space_rune_bytes: "w \<in> set space_runes \<Longrightarrow> w \<noteq> [] \<and> (\<forall>b \<in> set w. \<not> byte_in 33 126 b)"
  by (auto simp: space_runes_def byte_in_def)

lemma no_space_rune:
  assumes "byte_in 33 126 c"
  shows "find (\<lambda>w. w \<noteq> [] \<and> take (length w) (c # t) = w) space_runes = None"
    and "find (\<lambda>w. w \<noteq> [] \<and> take (length w) (c # t) = w) (map rev space_runes) = None"
proof -
  have "c \<in> set w" if "w \<noteq> []" "take (length w) (c # t) = w" for w
    using that by (cases w) auto
  with assms space_rune_bytes show
    "find (\<lambda>w. w \<noteq> [] \<and> take (length w) (c # t) = w) space_runes = None"
    "find (\<lambda>w. w \<noteq> [] \<and> take (length w) (c # t) = w) (map rev space_runes) = None"
    by (fastforce simp: find_None_iff)+
qed

lemma strip_plain:
  assumes "byte_in 33 126 c"
  shows "strip space_runes (c # t) = c # t" and "strip (map rev space_runes) (c # t) = c # t"
  by (subst strip.simps, simp add: no_space_rune [OF assms])+

lemma TrimSpace_plain:
  assumes "s \<noteq> []" and "byte_in 33 126 (hd s)" and "byte_in 33 126 (last s)"
  shows "TrimSpace s = s"
proof -
  from assms(1,2) have 1: "strip space_runes s = s"
    by (cases s) (simp_all add: strip_plain)
  from assms(1,3) have "strip (map rev space_runes) (rev s) = rev s"
    by (cases s rule: rev_cases) (simp_all add: strip_plain)
  with 1 show ?thesis
    by (simp add: TrimSpace_def)
qed

lemma rev_space_rune_bytes:
  "w \<in> set (map rev space_runes) \<Longrightarrow> b \<in> set w \<Longrightarrow> \<not> byte_in 33 126 b"
  using space_rune_bytes by fastforce

lemma strip_keeps:
  assumes "byte_in 33 126 c"
  shows "\<exists>g'. strip (map rev space_runes) (g @ c # t) = g' @ c # t"
proof (induction "length g" arbitrary: g rule: less_induct)
  case less
  show ?case
  proof (cases "find (\<lambda>w. w \<noteq> [] \<and> take (length w) (g @ c # t) = w) (map rev space_runes)")
    case None
    then have "strip (map rev space_runes) (g @ c # t) = g @ c # t"
      by (subst strip.simps) simp
    then show ?thesis by blast
  next
    case (Some w)
    then have w: "w \<in> set (map rev space_runes)" "w \<noteq> []" "take (length w) (g @ c # t) = w"
      by (auto simp: find_Some_iff)
    have "length w \<le> length g"
    proof (rule ccontr)
      assume "\<not> length w \<le> length g"
      then have "length g < length w" by simp
      with w(3) have "w ! length g = c"
        by (metis nth_append_length nth_take)
      with \<open>length g < length w\<close> have "c \<in> set w"
        by (metis nth_mem)
      with rev_space_rune_bytes [OF w(1)] assms show False
        by blast
    qed
    with w(3) have g: "g = w @ drop (length w) g"
      by (metis append_eq_conv_conj append_take_drop_id take_append diff_is_0_eq take_0 append_Nil2)
    from \<open>length w \<le> length g\<close> have d: "drop (length w) (g @ c # t) = drop (length w) g @ c # t"
      by simp
    from w(2) \<open>length w \<le> length g\<close> have "length (drop (length w) g) < length g"
      by (cases w) auto
    from less [OF this] obtain g' where
      "strip (map rev space_runes) (drop (length w) g @ c # t) = g' @ c # t"
      by blast
    with Some d have "strip (map rev space_runes) (g @ c # t) = g' @ c # t"
      by (subst strip.simps) simp
    then show ?thesis by blast
  qed
qed

lemma TrimSpace_keeps:
  assumes "byte_in 33 126 a" and "byte_in 33 126 c"
  shows "\<exists>g'. TrimSpace (a # p @ c # g) = a # p @ c # g'"
proof -
  have 1: "strip space_runes (a # p @ c # g) = a # p @ c # g"
    by (simp add: strip_plain assms)
  from strip_keeps [OF assms(2), of "rev g" "rev (a # p)"] obtain g'
    where "strip (map rev space_runes) (rev g @ c # rev (a # p)) = g' @ c # rev (a # p)"
    by blast
  then have "TrimSpace (a # p @ c # g) = a # p @ c # rev g'"
    by (simp add: TrimSpace_def 1)
  then show ?thesis by blast
qed


lemma Find_here: "rx_match r s = Some m \<Longrightarrow> Find r s = Some m"
  by (simp add: Find_def search_here)

lemma Find_skip: "rx_match r (c # s) = None \<Longrightarrow> Find r (c # s) = Find r s"
  by (cases "rx_search r s") (auto simp: Find_def search_skip)

lemma IsAction_eq:
  assumes "in_bounds expr"
  shows "IsAction expr =
     Inr (case Find action_rx (drop (position expr) (buffer expr)) of
            Some m \<Rightarrow> (True, expr\<lparr>position := position expr + length m, action := m\<rparr>)
          | None \<Rightarrow> (False, expr\<lparr>position := 0\<rparr>))"
  using assms
  by (simp add: IsAction_def Match_eq [OF _ Compile_simps(1)] in_bounds_def split: option.splits)

lemma IsPoint_eq:
  assumes "in_bounds expr"
  shows "IsPoint expr =
     (case Find point_rx (drop (position expr) (buffer expr)) of
        Some m \<Rightarrow>
          (case MakePoint m of
             Inl err \<Rightarrow> Inl err
           | Inr p \<Rightarrow> Inr (True, expr\<lparr>position := position expr + length m, point := p\<rparr>))
      | None \<Rightarrow> Inr (False, expr\<lparr>position := 0\<rparr>))"
  using assms
  by (simp add: IsPoint_def Match_eq [OF _ Compile_simps(2)] in_bounds_def split: option.splits)

lemma IsData_eq:
  assumes "in_bounds expr"
  shows "IsData expr =
     Inr (case Find digits_rx (drop (position expr) (buffer expr)) of
            Some m \<Rightarrow>
              (True, expr\<lparr>position := position expr + length m, data := Data (fst (Atoi m))\<rparr>)
          | None \<Rightarrow> (False, expr\<lparr>position := 0\<rparr>))"
  using assms
  by (simp add: IsData_def Match_eq [OF _ Compile_simps(3)] in_bounds_def split: option.splits)

lemma Find_action_front:
  assumes "A \<in> {''ADD'', ''DEL'', ''KNN'', ''END''}"
  shows "Find action_rx (A @ t) = Some A"
proof -
  from assms have "take 3 (A @ t) = A"
    by auto
  with assms show ?thesis
    by (intro Find_here) (simp add: match_action)
qed

lemma Find_point_after_space:
  assumes "x \<noteq> []" "list_all is_digit x" "y \<noteq> []" "list_all is_digit y"
  shows "Find point_rx ('' '' @ (''{'' @ x @ '', '' @ y @ ''}'') @ g) = Some (''{'' @ x @ '', '' @ y @ ''}'')"
proof -
  have "Find point_rx ('' '' @ (''{'' @ x @ '', '' @ y @ ''}'') @ g)
          = Find point_rx ((''{'' @ x @ '', '' @ y @ ''}'') @ g)"
    by (simp add: Find_skip match_point_head)
  also have "\<dots> = Some (''{'' @ x @ '', '' @ y @ ''}'')"
    using match_point_shape [OF assms, of g] by (intro Find_here) simp
  finally show ?thesis .
qed

lemma IsPoint_shape:
  assumes dig: "x \<noteq> []" "list_all is_digit x" "y \<noteq> []" "list_all is_digit y"
    and inb: "in_bounds e1"
    and cur: "drop (position e1) (buffer e1) = '' '' @ (''{'' @ x @ '', '' @ y @ ''}'') @ g"
  shows "IsPoint e1 =
           Inr (True, e1\<lparr>position := position e1 + (4 + length x + length y),
                          point := [float64 (fst (Atoi x)), float64 (fst (Atoi y))]\<rparr>)"
proof -
  have "IsPoint e1 =
           Inr (True, e1\<lparr>position := position e1 + length (''{'' @ x @ '', '' @ y @ ''}''),
                          point := [float64 (fst (Atoi x)), float64 (fst (Atoi y))]\<rparr>)"
    by (simp only: IsPoint_eq [OF inb] cur Find_point_after_space [OF dig] option.case
          MakePoint_shape [OF dig] sum.case)
  then show ?thesis
    by simp
qed

lemma partial_shape:
  assumes A: "A \<in> {''ADD'', ''DEL'', ''KNN'', ''END''}"
    and dig: "x \<noteq> []" "list_all is_digit x" "y \<noteq> []" "list_all is_digit y"
    and buf: "buffer expr = A @ '' '' @ (''{'' @ x @ '', '' @ y @ ''}'') @ g"
    and pos: "position expr = 0"
  shows "IsPartialCommand expr =
           Inr (True, expr\<lparr>position := 7 + length x + length y, action := A,
                            point := [float64 (fst (Atoi x)), float64 (fst (Atoi y))]\<rparr>)"
proof -
  from A have lA: "length A = 3"
    by auto
  have 1: "IsAction expr = Inr (True, expr\<lparr>position := 3, action := A\<rparr>)"
    using lA by (simp add: IsAction_eq in_bounds_def pos buf Find_action_front [OF A])
  have 2: "in_bounds (expr\<lparr>position := 3, action := A\<rparr>)"
    using lA by (simp add: in_bounds_def buf)
  have 3: "drop (position (expr\<lparr>position := 3, action := A\<rparr>))
             (buffer (expr\<lparr>position := 3, action := A\<rparr>))
           = '' '' @ (''{'' @ x @ '', '' @ y @ ''}'') @ g"
    using lA by (simp add: buf)
  show ?thesis
    unfolding IsPartialCommand_def and_then_def 1
    by (simp add: IsPoint_shape [OF dig 2 3])
qed

lemma command_shape:
  assumes A: "A \<in> {''ADD'', ''DEL'', ''KNN'', ''END''}"
    and dig: "x \<noteq> []" "list_all is_digit x" "y \<noteq> []" "list_all is_digit y"
    and buf: "buffer expr = A @ '' '' @ (''{'' @ x @ '', '' @ y @ ''}'') @ g"
    and pos: "position expr = 0"
  shows "IsCommand expr =
           Inr (case Find digits_rx g of
                  None \<Rightarrow>
                    (False, expr\<lparr>position := 0, action := A,
                                  point := [float64 (fst (Atoi x)), float64 (fst (Atoi y))]\<rparr>)
                | Some m \<Rightarrow>
                    (True, expr\<lparr>position := 7 + length x + length y + length m, action := A,
                                 point := [float64 (fst (Atoi x)), float64 (fst (Atoi y))],
                                 data := Data (fst (Atoi m))\<rparr>))"
proof -
  from A have lA: "length A = 3"
    by auto
  define e2 where "e2 = expr\<lparr>position := 7 + length x + length y, action := A,
                            point := [float64 (fst (Atoi x)), float64 (fst (Atoi y))]\<rparr>"
  have 1: "IsPartialCommand expr = Inr (True, e2)"
    unfolding e2_def by (rule partial_shape [OF assms])
  have "A @ '' '' @ (''{'' @ x @ '', '' @ y @ ''}'') @ g = (A @ '' {'' @ x @ '', '' @ y) @ ''}'' @ g"
    by simp
  moreover have "length (A @ '' {'' @ x @ '', '' @ y) = 7 + length x + length y"
    using lA by simp
  ultimately have 2: "drop (7 + length x + length y) (buffer expr) = ''}'' @ g"
    unfolding buf by (metis append_eq_conv_conj)
  have 3: "in_bounds e2"
    using lA by (simp add: e2_def in_bounds_def buf)
  have 4: "Find digits_rx (CHR ''}'' # g) = Find digits_rx g"
    by (simp add: Find_skip match_digits_nondigit nondigits)
  have 5: "position e2 = 7 + length x + length y" "buffer e2 = buffer expr"
    by (simp_all add: e2_def)
  have "IsCommand expr = IsData e2"
    unfolding IsCommand_def IsPartialCommand_def [symmetric]
    by (subst and_then_def) (simp add: 1)
  also have "\<dots> = Inr (case Find digits_rx g of
            Some m \<Rightarrow>
              (True, e2\<lparr>position := position e2 + length m, data := Data (fst (Atoi m))\<rparr>)
          | None \<Rightarrow> (False, e2\<lparr>position := 0\<rparr>))"
    by (simp only: IsData_eq [OF 3]) (simp add: 5 2 4)
  finally show ?thesis
    by (simp add: e2_def split: option.splits)
qed


lemma command_shape_proj:
  assumes "A \<in> {''ADD'', ''DEL'', ''KNN'', ''END''}"
    and "x \<noteq> []" "list_all is_digit x" "y \<noteq> []" "list_all is_digit y"
    and "buffer expr = A @ '' '' @ (''{'' @ x @ '', '' @ y @ ''}'') @ g"
    and "position expr = 0"
  shows "\<exists>b e'. IsCommand expr = Inr (b, e') \<and> buffer e' = buffer expr \<and> action e' = A"
  by (cases "Find digits_rx g") (auto simp: command_shape [OF assms])

lemma full_fails:
  assumes A: "A \<in> {''DEL'', ''END''}"
    and dig: "x \<noteq> []" "list_all is_digit x" "y \<noteq> []" "list_all is_digit y"
    and buf: "buffer expr = A @ '' '' @ (''{'' @ x @ '', '' @ y @ ''}'') @ g"
    and pos: "position expr = 0"
  shows "\<exists>e'. IsFullCommand expr = Inr (False, e') \<and> buffer e' = buffer expr \<and> position e' = 0"
proof -
  from A have A': "A \<in> {''ADD'', ''DEL'', ''KNN'', ''END''}" and ne: "A \<noteq> ''ADD''" "A \<noteq> ''KNN''"
    by auto
  from command_shape_proj [OF A' dig buf pos] obtain b e1
    where 1: "IsCommand expr = Inr (b, e1)" "buffer e1 = buffer expr" "action e1 = A"
    by blast
  with ne have add: "IsAddCommand expr = Inr (False, e1\<lparr>position := 0\<rparr>)"
    by (simp add: IsAddCommand_def)
  have "buffer (e1\<lparr>position := 0\<rparr>) = A @ '' '' @ (''{'' @ x @ '', '' @ y @ ''}'') @ g"
    "position (e1\<lparr>position := 0\<rparr>) = 0"
    using 1 buf by simp_all
  from command_shape_proj [OF A' dig this] obtain b2 e2
    where 2: "IsCommand (e1\<lparr>position := 0\<rparr>) = Inr (b2, e2)"
      "buffer e2 = buffer (e1\<lparr>position := 0\<rparr>)" "action e2 = A"
    by blast
  with ne have "IsKnnCommand (e1\<lparr>position := 0\<rparr>) = Inr (False, e2\<lparr>position := 0\<rparr>)"
    by (simp add: IsKnnCommand_def)
  with add have "IsFullCommand expr = Inr (False, e2\<lparr>position := 0\<rparr>)"
    by (simp add: IsFullCommand_def or_else_def)
  with 1 2 show ?thesis
    by simp
qed

lemma parse_trimmed_del:
  assumes dig: "x \<noteq> []" "list_all is_digit x" "y \<noteq> []" "list_all is_digit y"
    and trim: "TrimSpace line = ''DEL'' @ '' '' @ (''{'' @ x @ '', '' @ y @ ''}'') @ g"
  shows "\<exists>expr. ParseKDtreeCommand line = Inr expr \<and> valid expr \<and> action expr = ''DEL''
           \<and> point expr = [float64 (fst (Atoi x)), float64 (fst (Atoi y))]
           \<and> buffer expr = TrimSpace line"
proof -
  have A: "''DEL'' \<in> {''DEL'', ''END''}" "''DEL'' \<in> {''ADD'', ''DEL'', ''KNN'', ''END''}"
    by simp_all
  have "buffer (new_Expr (TrimSpace line)) = ''DEL'' @ '' '' @ (''{'' @ x @ '', '' @ y @ ''}'') @ g"
    "position (new_Expr (TrimSpace line)) = 0"
    by (simp_all add: new_Expr_def trim)
  from full_fails [OF A(1) dig this] obtain e1
    where 1: "IsFullCommand (new_Expr (TrimSpace line)) = Inr (False, e1)"
      and b1: "buffer e1 = buffer (new_Expr (TrimSpace line))" and p1: "position e1 = 0"
    by blast
  from b1 have b1': "buffer e1 = ''DEL'' @ '' '' @ (''{'' @ x @ '', '' @ y @ ''}'') @ g"
    by (simp add: new_Expr_def trim)
  have "IsDelCommand e1 = Inr (True, e1\<lparr>position := 7 + length x + length y, action := ''DEL'',
                            point := [float64 (fst (Atoi x)), float64 (fst (Atoi y))]\<rparr>)"
    by (simp add: IsDelCommand_def partial_shape [OF A(2) dig b1' p1])
  with 1 have "or_else (or_else IsFullCommand IsDelCommand) IsEndAction (new_Expr (TrimSpace line))
      = Inr (True, e1\<lparr>position := 7 + length x + length y, action := ''DEL'',
                            point := [float64 (fst (Atoi x)), float64 (fst (Atoi y))]\<rparr>)"
    by (simp add: or_else_def)
  then show ?thesis
    using b1 by (simp add: ParseKDtreeCommand_def new_Expr_def)
qed

lemma Find_digits_after_space:
  assumes "n \<noteq> []" "list_all is_digit n"
  shows "Find digits_rx (CHR '' '' # n) = Some n"
proof -
  have "rx_match digits_rx (n @ []) = Some n"
    using assms by (intro match_digits_run) simp_all
  then have "Find digits_rx n = Some n"
    by (intro Find_here) simp
  then show ?thesis
    by (simp add: Find_skip match_digits_nondigit nondigits)
qed

lemma parse_trimmed_full:
  assumes A: "A \<in> {''ADD'', ''KNN''}"
    and dig: "x \<noteq> []" "list_all is_digit x" "y \<noteq> []" "list_all is_digit y"
    and n: "n \<noteq> []" "list_all is_digit n"
    and trim: "TrimSpace line = A @ '' '' @ (''{'' @ x @ '', '' @ y @ ''}'') @ '' '' @ n"
  shows "\<exists>expr. ParseKDtreeCommand line = Inr expr \<and> valid expr \<and> action expr = A
           \<and> point expr = [float64 (fst (Atoi x)), float64 (fst (Atoi y))]
           \<and> data expr = Data (fst (Atoi n))"
proof -
  from A have A': "A \<in> {''ADD'', ''DEL'', ''KNN'', ''END''}"
    by auto
  define e0 where "e0 = new_Expr (TrimSpace line)"
  define P where "P = [float64 (fst (Atoi x)), float64 (fst (Atoi y))]"
  define e1 where "e1 = e0\<lparr>position := 7 + length x + length y + length n, action := A,
                            point := P, data := Data (fst (Atoi n))\<rparr>"
  have e0: "buffer e0 = A @ '' '' @ (''{'' @ x @ '', '' @ y @ ''}'') @ '' '' @ n" "position e0 = 0"
    by (simp_all add: e0_def new_Expr_def trim)
  have c0: "IsCommand e0 = Inr (True, e1)"
    by (simp add: command_shape [OF A' dig e0] Find_digits_after_space [OF n] e1_def P_def)
  have e1: "buffer (e1\<lparr>position := 0\<rparr>) = A @ '' '' @ (''{'' @ x @ '', '' @ y @ ''}'') @ '' '' @ n"
    "position (e1\<lparr>position := 0\<rparr>) = 0"
    using e0 by (simp_all add: e1_def)
  have c1: "IsCommand (e1\<lparr>position := 0\<rparr>) = Inr (True, e1)"
    by (simp only: command_shape [OF A' dig e1])
       (simp add: Find_digits_after_space [OF n] e1_def P_def)
  have "IsFullCommand e0 = Inr (True, e1)"
  proof (cases "A = ''ADD''")
    case True
    with c0 show ?thesis
      by (simp add: IsFullCommand_def or_else_def IsAddCommand_def e1_def)
  next
    case False
    with A have "A = ''KNN''"
      by simp
    with c0 c1 show ?thesis
      by (simp add: IsFullCommand_def or_else_def IsAddCommand_def IsKnnCommand_def e1_def)
  qed
  then have "ParseKDtreeCommand line = Inr (e1\<lparr>valid := True\<rparr>)"
    by (simp add: ParseKDtreeCommand_def or_else_def e0_def)
  then show ?thesis
    by (simp add: e1_def P_def)
qed

section \<open>Values of digit groups\<close>

lemma digit_val_range:
  assumes "is_digit c"
  shows "(0::int) \<le> of_char c - 48"
proof -
  have "(of_char c :: int) = int (of_char c)"
    by (simp add: of_nat_of_char)
  with assms show ?thesis
    by (simp add: is_digit_def byte_in_def)
qed

lemma foldl_digits_nonneg:
  "list_all is_digit ds \<Longrightarrow> 0 \<le> a \<Longrightarrow> (0::int) \<le> foldl (\<lambda>n c. 10 * n + (of_char c - 48)) a ds"
proof (induction ds arbitrary: a)
  case Nil
  then show ?case by simp
next
  case (Cons c ds)
  from Cons.prems have "0 \<le> 10 * a + (of_char c - 48)"
    using digit_val_range [of c] by simp
  with Cons show ?case by simp
qed

lemma digits_val_nonneg: "list_all is_digit ds \<Longrightarrow> 0 \<le> digits_val ds"
  by (simp add: digits_val_def foldl_digits_nonneg)

lemma Atoi_digits:
  assumes "ds \<noteq> []" "list_all is_digit ds"
  shows "fst (Atoi ds) = (if digits_val ds < 2 ^ 63 then digits_val ds else 2 ^ 63 - 1)"
proof -
  from assms have "is_digit (hd ds)"
    by (cases ds) simp_all
  then have "hd ds \<noteq> CHR ''+''" "hd ds \<noteq> CHR ''-''"
    by (auto simp: is_digit_def byte_in_def)
  with assms show ?thesis
    by (simp add: Atoi_def Let_def)
qed

lemma bitlen_le: "n < 2 ^ k \<Longrightarrow> bitlen n \<le> k"
proof (induction k arbitrary: n)
  case 0
  then show ?case by (subst bitlen.simps) simp
next
  case (Suc k)
  from Suc.prems have "n div 2 < 2 ^ k"
    by simp
  from Suc.IH [OF this] show ?case
    by (subst bitlen.simps) simp
qed

lemma float64_exact:
  assumes "0 \<le> v" and "v \<le> 2 ^ 53"
  shows "float64 v = v"
proof (cases "v = 2 ^ 53")
  case True
  have "bitlen (2 ^ 53) \<le> 54"
    by (rule bitlen_le) simp
  then consider "bitlen (2 ^ 53) - 53 = 0" | "bitlen (2 ^ 53) - 53 = 1"
    by linarith
  then show ?thesis
    by cases (simp_all add: float64_def True)
next
  case False
  with assms have "v < 2 ^ 53"
    by simp
  from bitlen_le [OF this] assms(1) show ?thesis
    by (simp add: float64_def)
qed

lemma Find_point_no_brace: "CHR ''{'' \<notin> set s \<Longrightarrow> Find point_rx s = None"
proof (induction s)
  case Nil
  then show ?case
    by (simp add: Find_def match_point_Nil)
next
  case (Cons c s)
  then have "c \<noteq> CHR ''{''" and "Find point_rx s = None"
    by auto
  then show ?case
    by (simp add: Find_skip match_point_head)
qed

lemma point_without_space:
  assumes "list_all is_digit x" "y \<noteq> []" "list_all is_digit y"
  shows "Find point_rx (''{'' @ x @ '','' @ y @ ''}'') = None"
proof -
  obtain d y' where y: "y = d # y'" and d: "is_digit d"
    using assms(2,3) by (cases y) auto
  have dx: "dropWhile is_digit (x @ CHR '','' # t) = CHR '','' # t" for t
    using assms(1) nondigits by (simp add: list_all_iff)
  have "d \<noteq> CHR '' ''"
    using is_digit_chars [OF d] by simp
  then have 1: "rx_match point_rx (CHR ''{'' # x @ CHR '','' # y @ ''}'') = None"
    by (simp add: rx_match_def rests_point dx y numeral_2_eq_2)
  have "CHR ''{'' \<notin> set (x @ CHR '','' # y @ ''}'')"
    using assms is_digit_chars by (auto simp: list_all_iff)
  from Find_point_no_brace [OF this] 1 show ?thesis
    by (simp add: Find_skip)
qed

section \<open>The claims\<close>

text \<open>
  C9: a line that consists of a complete \<open>DEL {x, y}\<close> (\<open>x\<close> and \<open>y\<close> non-empty groups
  of digits) followed by any text \<open>g\<close> is accepted as a valid Delete command for the point
  \<open>(x, y)\<close>: the text after the closing brace is ignored, not rejected.
\<close>

theorem DelCommand_ignores_trailing_text:
  assumes "x \<noteq> []" "list_all is_digit x" "y \<noteq> []" "list_all is_digit y"
  shows "\<exists>expr. ParseKDtreeCommand (''DEL {'' @ x @ '', '' @ y @ ''}'' @ g) = Inr expr
           \<and> valid expr \<and> action expr = ''DEL''
           \<and> point expr = [float64 (fst (Atoi x)), float64 (fst (Atoi y))]"
proof -
  have "byte_in 33 126 CHR ''D''" "byte_in 33 126 CHR ''}''"
    by (simp_all add: byte_in_def)
  from TrimSpace_keeps [OF this, of "''EL {'' @ x @ '', '' @ y" g] obtain g'
    where "TrimSpace (''DEL {'' @ x @ '', '' @ y @ ''}'' @ g)
             = ''DEL'' @ '' '' @ (''{'' @ x @ '', '' @ y @ ''}'') @ g'"
    by auto
  from parse_trimmed_del [OF assms this] show ?thesis
    by blast
qed

theorem DelCommand_ignores_trailing_text_witness:
  "''5'' \<noteq> [] \<and> list_all is_digit ''5''
   \<and> (\<exists>expr. ParseKDtreeCommand ''DEL {5, 5} junk 7'' = Inr expr
          \<and> valid expr \<and> action expr = ''DEL'' \<and> point expr = [5, 5])"
proof -
  have d: "''5'' \<noteq> []" "list_all is_digit ''5''"
    by (simp_all add: is_digit_def byte_in_def)
  have v: "float64 (fst (Atoi ''5'')) = 5"
    using Atoi_digits [OF d] float64_exact [of 5] by (simp add: digits_val_def)
  from DelCommand_ignores_trailing_text [OF d d, of "'' junk 7''"] d v show ?thesis
    by simp
qed


lemma parse_END:
  "ParseKDtreeCommand ''END'' =
     Inr \<lparr>buffer = ''END'', position = 3, action = ''END'', point = [], data = Data 0,
          valid = True\<rparr>"
  by code_simp

lemma parse_END_line:
  "ParseKDtreeCommand ''END\<newline>'' =
     Inr \<lparr>buffer = ''END'', position = 3, action = ''END'', point = [], data = Data 0,
          valid = True\<rparr>"
  by code_simp

lemma Match_fails:
  assumes "in_bounds expr" "Compile token = Some re"
    "Find re (drop (position expr) (buffer expr)) = None"
  shows "Match expr token = Inr (([], False), expr)"
  using assms by (simp add: Match_eq in_bounds_def)

lemma digit_plain: "is_digit c \<Longrightarrow> byte_in 33 126 c"
  by (simp add: is_digit_def byte_in_def)

lemma last_digit_plain: "n \<noteq> [] \<Longrightarrow> list_all is_digit n \<Longrightarrow> byte_in 33 126 (last n)"
  by (simp add: digit_plain list_all_iff)

lemma parse_KNN_1_1_5:
  "ParseKDtreeCommand ''KNN {1, 1} 5\<newline>'' =
     Inr \<lparr>buffer = ''KNN {1, 1} 5'', position = 10, action = ''KNN'', point = [1, 1],
          data = Data 5, valid = True\<rparr>"
  by code_simp

lemma dispatch_calls_effect:
  "snd (dispatch tree parsed st) = foldl (run_call tree) st (dispatch_calls parsed)"
  "snd (dispatch_part_000 tree parsed st) =
     foldl (run_call tree) st (dispatch_calls_part_000 parsed)"
  by (simp_all add: dispatch_def dispatch_part_000_def dispatch_calls_def
        dispatch_calls_part_000_def)

lemma dispatch_calls_mutex:
  "filter (\<lambda>e. e = Lock \<or> e = Unlock) (fst (dispatch tree parsed st)) =
     concat (map mutex_events (dispatch_calls parsed))"
  "filter (\<lambda>e. e = Lock \<or> e = Unlock) (fst (dispatch_part_000 tree parsed st)) =
     concat (map mutex_events (dispatch_calls_part_000 parsed))"
  by (auto simp: dispatch_def dispatch_part_000_def dispatch_calls_def
        dispatch_calls_part_000_def)

text \<open>
  C4 (the code departs from the claim): in \<open>daemon.go\<close> the calls of a command keep the
  lock discipline exactly when the command is not a query: \<open>Insert\<close> and \<open>Remove\<close> are
  made between \<open>Lock\<close> and \<open>Unlock\<close>, \<open>KNN\<close> is made without the mutex. In the second
  source file no command that reaches the tree keeps it, and no session ever locks. The
  line \<open>KNN {1, 1} 5\<close> is answered in \<open>daemon.go\<close> with no event of the mutex in the trace.
\<close>

theorem KNN_is_called_without_the_lock:
  "under_lock False (dispatch_calls parsed) = (action parsed \<noteq> ''KNN'')
   \<and> under_lock False (dispatch_calls_part_000 parsed) =
       (action parsed \<noteq> ''ADD'' \<and> action parsed \<noteq> ''DEL'' \<and> action parsed \<noteq> ''KNN'')
   \<and> Lock \<notin> set (fst (dispatch_part_000 tree parsed st))
   \<and> session_loop tree [ReadLine ''KNN {1, 1} 5\<newline>''] st =
       ([WriteKNN (KNN tree [1, 1] 5 st)], st, Reading)"
  by (simp add: dispatch_calls_def dispatch_calls_part_000_def dispatch_part_000_def
        parse_KNN_1_1_5 dispatch_def then_events_def)

text \<open>
  C5, as amended: for non-empty digit groups \<open>x\<close>, \<open>y\<close>, \<open>n\<close> whose values are at most
  \<open>2 ^ 53\<close> for the coordinates and below \<open>2 ^ 63\<close> for the payload, the lines
  \<open>ADD {x, y} n\<close>, \<open>KNN {x, y} n\<close>, \<open>DEL {x, y}\<close> and \<open>END\<close> parse to a valid command with
  that action, the point \<open>(x, y)\<close> and the payload or neighbour count \<open>n\<close>; and a point
  written without the space after the comma, \<open>{x,y}\<close>, is not matched by the point pattern.
  (Beyond these bounds \<open>Atoi\<close> saturates at \<open>2 ^ 63 - 1\<close>, its error being discarded, and
  the conversion to \<open>float64\<close> rounds.)
\<close>

theorem command_shapes_parse:
  assumes x: "x \<noteq> []" "list_all is_digit x" and y: "y \<noteq> []" "list_all is_digit y"
    and n: "n \<noteq> []" "list_all is_digit n"
    and bx: "digits_val x \<le> 2 ^ 53" and "by": "digits_val y \<le> 2 ^ 53"
    and bn: "digits_val n < 2 ^ 63"
  shows
    "(\<exists>e. ParseKDtreeCommand (''ADD {'' @ x @ '', '' @ y @ ''} '' @ n) = Inr e \<and> valid e
        \<and> action e = ''ADD'' \<and> point e = [digits_val x, digits_val y]
        \<and> data e = Data (digits_val n))
     \<and> (\<exists>e. ParseKDtreeCommand (''KNN {'' @ x @ '', '' @ y @ ''} '' @ n) = Inr e \<and> valid e
        \<and> action e = ''KNN'' \<and> point e = [digits_val x, digits_val y]
        \<and> data e = Data (digits_val n))
     \<and> (\<exists>e. ParseKDtreeCommand (''DEL {'' @ x @ '', '' @ y @ ''}'') = Inr e \<and> valid e
        \<and> action e = ''DEL'' \<and> point e = [digits_val x, digits_val y])
     \<and> (\<exists>e. ParseKDtreeCommand ''END'' = Inr e \<and> valid e \<and> action e = ''END'')
     \<and> Match (new_Expr (''{'' @ x @ '','' @ y @ ''}'')) ''{[0-9]+, [0-9]+}''
          = Inr (([], False), new_Expr (''{'' @ x @ '','' @ y @ ''}''))"
proof -
  have vx: "float64 (fst (Atoi x)) = digits_val x"
    using bx digits_val_nonneg [OF x(2)] by (simp add: Atoi_digits [OF x] float64_exact)
  have vy: "float64 (fst (Atoi y)) = digits_val y"
    using "by" digits_val_nonneg [OF y(2)] by (simp add: Atoi_digits [OF y] float64_exact)
  have vn: "fst (Atoi n) = digits_val n"
    using bn by (simp add: Atoi_digits [OF n])
  have pl: "byte_in 33 126 CHR ''A''" "byte_in 33 126 CHR ''K''" "byte_in 33 126 CHR ''D''"
    "byte_in 33 126 CHR ''}''"
    by (simp_all add: byte_in_def)
  have "TrimSpace (''ADD {'' @ x @ '', '' @ y @ ''} '' @ n)
          = ''ADD'' @ '' '' @ (''{'' @ x @ '', '' @ y @ ''}'') @ '' '' @ n"
    using pl last_digit_plain [OF n] n(1) by (subst TrimSpace_plain) simp_all
  from parse_trimmed_full [OF _ x y n this]
  have add: "\<exists>e. ParseKDtreeCommand (''ADD {'' @ x @ '', '' @ y @ ''} '' @ n) = Inr e \<and> valid e
        \<and> action e = ''ADD'' \<and> point e = [digits_val x, digits_val y]
        \<and> data e = Data (digits_val n)"
    by (simp add: vx vy vn)
  have "TrimSpace (''KNN {'' @ x @ '', '' @ y @ ''} '' @ n)
          = ''KNN'' @ '' '' @ (''{'' @ x @ '', '' @ y @ ''}'') @ '' '' @ n"
    using pl last_digit_plain [OF n] n(1) by (subst TrimSpace_plain) simp_all
  from parse_trimmed_full [OF _ x y n this]
  have knn: "\<exists>e. ParseKDtreeCommand (''KNN {'' @ x @ '', '' @ y @ ''} '' @ n) = Inr e \<and> valid e
        \<and> action e = ''KNN'' \<and> point e = [digits_val x, digits_val y]
        \<and> data e = Data (digits_val n)"
    by (simp add: vx vy vn)
  have "TrimSpace (''DEL {'' @ x @ '', '' @ y @ ''}'')
          = ''DEL'' @ '' '' @ (''{'' @ x @ '', '' @ y @ ''}'') @ []"
    using pl by (subst TrimSpace_plain) simp_all
  from parse_trimmed_del [OF x y this]
  have del: "\<exists>e. ParseKDtreeCommand (''DEL {'' @ x @ '', '' @ y @ ''}'') = Inr e \<and> valid e
        \<and> action e = ''DEL'' \<and> point e = [digits_val x, digits_val y]"
    by (auto simp: vx vy)
  have "end": "\<exists>e. ParseKDtreeCommand ''END'' = Inr e \<and> valid e \<and> action e = ''END''"
    by (simp add: parse_END)
  have "Match (new_Expr (''{'' @ x @ '','' @ y @ ''}'')) ''{[0-9]+, [0-9]+}''
          = Inr (([], False), new_Expr (''{'' @ x @ '','' @ y @ ''}''))"
    using point_without_space [OF x(2) y]
    by (intro Match_fails [OF _ Compile_simps(2)]) (simp_all add: in_bounds_def new_Expr_def)
  with add knn del "end" show ?thesis
    by blast
qed

text \<open>
  The claim as first stated fails for a payload beyond the range of \<open>int\<close>: the line
  \<open>ADD {1, 2} 9223372036854775808\<close> yields the payload \<open>9223372036854775807\<close>.
\<close>

theorem payload_overflow_counterexample:
  "ParseKDtreeCommand ''ADD {1, 2} 9223372036854775808'' =
     Inr \<lparr>buffer = ''ADD {1, 2} 9223372036854775808'', position = 28, action = ''ADD'',
          point = [1, 2], data = Data 9223372036854775807, valid = True\<rparr>"
  by code_simp

theorem command_shapes_parse_witness:
  "(\<exists>e. ParseKDtreeCommand ''ADD {3, 4} 7'' = Inr e \<and> valid e \<and> action e = ''ADD''
        \<and> point e = [3, 4] \<and> data e = Data 7)
   \<and> (\<exists>e. ParseKDtreeCommand ''KNN {3, 4} 7'' = Inr e \<and> valid e \<and> action e = ''KNN''
        \<and> point e = [3, 4] \<and> data e = Data 7)
   \<and> (\<exists>e. ParseKDtreeCommand ''DEL {3, 4}'' = Inr e \<and> valid e \<and> action e = ''DEL''
        \<and> point e = [3, 4])
   \<and> Match (new_Expr ''{3,4}'') ''{[0-9]+, [0-9]+}'' = Inr (([], False), new_Expr ''{3,4}'')"
proof -
  have d: "''3'' \<noteq> []" "list_all is_digit ''3''" "''4'' \<noteq> []" "list_all is_digit ''4''"
    "''7'' \<noteq> []" "list_all is_digit ''7''"
    by (simp_all add: is_digit_def byte_in_def)
  have v: "digits_val ''3'' = 3" "digits_val ''4'' = 4" "digits_val ''7'' = 7"
    by (simp_all add: digits_val_def)
  from command_shapes_parse [OF d] v show ?thesis
    by simp
qed


lemma parse_xADD:
  "ParseKDtreeCommand ''xADD {1, 2} 3\<newline>'' =
     Inr \<lparr>buffer = ''xADD {1, 2} 3'', position = 10, action = ''ADD'', point = [1, 2],
          data = Data 2, valid = True\<rparr>"
  by code_simp

text \<open>
  C1 (the code departs from the claim): the line \<open>xADD {1, 2} 3\<close> has none of the four
  shapes, yet the parser returns a valid Add command, with the payload 2, and the session
  loop inserts the record into the store. The search of \<open>Match\<close> is not anchored at the
  cursor, and the cursor advances by the length of the match from where it stood.
\<close>

theorem line_with_leading_text_is_executed:
  "ParseKDtreeCommand ''xADD {1, 2} 3\<newline>'' =
     Inr \<lparr>buffer = ''xADD {1, 2} 3'', position = 10, action = ''ADD'', point = [1, 2],
          data = Data 2, valid = True\<rparr>
   \<and> session_loop tree [ReadLine ''xADD {1, 2} 3\<newline>''] st =
       ([Lock, Unlock, WriteAdded [1, 2]], Insert tree [1, 2] (Data 2) st, Reading)"
  by (simp add: parse_xADD dispatch_def then_events_def)

text \<open>
  C2 (the code departs from the claim): in the buffer \<open>ADD {1, 2} 3\<close> with the cursor at 3,
  \<open>Match\<close> with the point pattern returns \<open>{1, 2}\<close>, which ends at offset 10, and leaves
  the cursor at 9, inside the match: what remains is \<open>} 3\<close>. In the buffer \<open>xADD\<close> with the
  cursor at 0, \<open>Match\<close> with the action pattern succeeds although the pattern does not match
  at the first character.
\<close>

theorem Match_cursor_inside_match:
  "Match \<lparr>buffer = ''ADD {1, 2} 3'', position = 3, action = ''ADD'', point = [],
           data = Data 0, valid = False\<rparr> ''{[0-9]+, [0-9]+}'' =
     Inr ((''{1, 2}'', True),
          \<lparr>buffer = ''ADD {1, 2} 3'', position = 9, action = ''ADD'', point = [],
           data = Data 0, valid = False\<rparr>)
   \<and> Current \<lparr>buffer = ''ADD {1, 2} 3'', position = 9, action = ''ADD'', point = [],
           data = Data 0, valid = False\<rparr> = Inr ''} 3''
   \<and> Match (new_Expr ''xADD'') ''ADD|DEL|KNN|END'' =
     Inr ((''ADD'', True),
          \<lparr>buffer = ''xADD'', position = 3, action = [], point = [], data = Data 0,
           valid = False\<rparr>)"
  by code_simp

text \<open>
  C3 (the code departs from the claim): in the second source file a read error in a session
  reaches \<open>log.Fatal\<close>, which ends the whole process; in \<open>daemon.go\<close> the session writes
  \<open>READ ERROR\<close> and goes on reading.
\<close>

theorem read_error_ends_process_in_part_000:
  "HandleRequest_part_000 tree (ReadErr # rs) st =
     ([Write (''Connected to kdtreed...'' @ crlf), Fatal], st, ProcessExit)
   \<and> HandleRequest tree [ReadErr] st =
     ([Write (''Connected to kdtreed...'' @ crlf), Write (''READ ERROR'' @ crlf)], st, Reading)"
  by (simp add: HandleRequest_part_000_def HandleRequest_def then_events_def)


lemma then_events_Nil: "then_events [] run = run"
  by (cases run) (simp add: then_events_def)

lemma then_events_then: "then_events a (then_events b run) = then_events (a @ b) run"
  by (cases run) (simp add: then_events_def)

lemma session_loop_append:
  "session_loop tree pre st = (tr, st', Reading) \<Longrightarrow>
   session_loop tree (pre @ rs) st = then_events tr (session_loop tree rs st')"
proof (induction pre arbitrary: st tr)
  case Nil
  then show ?case
    by (simp add: then_events_Nil)
next
  case (Cons r pre)
  show ?case
  proof (cases r)
    case ReadErr
    with Cons.prems obtain tr1 where 1: "session_loop tree pre st = (tr1, st', Reading)"
      and tr: "tr = Write (''READ ERROR'' @ crlf) # tr1"
      by (cases "session_loop tree pre st") (auto simp: then_events_def)
    from Cons.IH [OF 1] ReadErr tr show ?thesis
      by (simp add: then_events_then)
  next
    case (ReadLine line)
    from Cons.prems ReadLine obtain parsed where p: "ParseKDtreeCommand line = Inr parsed"
      by (cases "ParseKDtreeCommand line") auto
    show ?thesis
    proof (cases "valid parsed")
      case False
      with Cons.prems ReadLine p obtain tr1 where 1: "session_loop tree pre st = (tr1, st', Reading)"
        and tr: "tr = Write (''INVALID COMMAND'' @ crlf) # tr1"
        by (cases "session_loop tree pre st") (auto simp: then_events_def)
      from Cons.IH [OF 1] ReadLine p False tr show ?thesis
        by (simp add: then_events_then)
    next
      case True
      with Cons.prems ReadLine p have ne: "action parsed \<noteq> ''END''"
        by auto
      obtain evs st1 where d: "dispatch tree parsed st = (evs, st1)"
        by (cases "dispatch tree parsed st")
      with Cons.prems ReadLine p True ne obtain tr1
        where 1: "session_loop tree pre st1 = (tr1, st', Reading)" and tr: "tr = evs @ tr1"
        by (cases "session_loop tree pre st1") (auto simp: then_events_def)
      from Cons.IH [OF 1] ReadLine p True ne d tr show ?thesis
        by (simp add: then_events_then)
    qed
  qed
qed

lemma session_loop_part_000_append:
  "session_loop_part_000 tree pre st = (tr, st', Reading) \<Longrightarrow>
   session_loop_part_000 tree (pre @ rs) st = then_events tr (session_loop_part_000 tree rs st')"
proof (induction pre arbitrary: st tr)
  case Nil
  then show ?case
    by (simp add: then_events_Nil)
next
  case (Cons r pre)
  show ?case
  proof (cases r)
    case ReadErr
    with Cons.prems show ?thesis
      by simp
  next
    case (ReadLine line)
    from Cons.prems ReadLine obtain parsed where p: "ParseKDtreeCommand line = Inr parsed"
      by (cases "ParseKDtreeCommand line") auto
    from Cons.prems ReadLine p have v: "valid parsed" "action parsed \<noteq> ''END''"
      by (auto split: if_splits)
    obtain evs st1 where d: "dispatch_part_000 tree parsed st = (evs, st1)"
      by (cases "dispatch_part_000 tree parsed st")
    with Cons.prems ReadLine p v obtain tr1
      where 1: "session_loop_part_000 tree pre st1 = (tr1, st', Reading)" and tr: "tr = evs @ tr1"
      by (cases "session_loop_part_000 tree pre st1") (auto simp: then_events_def)
    from Cons.IH [OF 1] ReadLine p v d tr show ?thesis
      by (simp add: then_events_then)
  qed
qed

text \<open>
  C6, as amended: a session that is still reading when it receives a line that parses to a
  valid End command writes, in \<open>daemon.go\<close>, the farewell \<open>BYE!!!\<close> and then closes the
  connection; in the second source file it closes the connection without a farewell.
\<close>

theorem End_farewell_then_close:
  assumes "ParseKDtreeCommand line = Inr parsed" and "valid parsed" and "action parsed = ''END''"
  shows "(session_loop tree pre st = (tr, st', Reading) \<longrightarrow>
            HandleRequest tree (pre @ ReadLine line # post) st =
              (Write (''Connected to kdtreed...'' @ crlf) # tr
                 @ [Write (''BYE!!!'' @ crlf), Close], st', Closed))
       \<and> (session_loop_part_000 tree pre st = (tr, st', Reading) \<longrightarrow>
            HandleRequest_part_000 tree (pre @ ReadLine line # post) st =
              (Write (''Connected to kdtreed...'' @ crlf) # tr @ [Close], st', Closed))"
  using assms
  by (auto simp: HandleRequest_def HandleRequest_part_000_def session_loop_append
        session_loop_part_000_append then_events_def)

text \<open>
  The claim as first stated fails in the second source file: on \<open>END\<close> the session closes
  the connection and has written nothing but the greeting.
\<close>

theorem End_without_farewell_counterexample:
  "HandleRequest_part_000 spec_store [ReadLine ''END\<newline>''] [] =
     ([Write (''Connected to kdtreed...'' @ crlf), Close], [], Closed)"
  by (simp add: HandleRequest_part_000_def parse_END_line then_events_def)

theorem End_farewell_then_close_witness:
  "HandleRequest spec_store [ReadErr, ReadLine ''END\<newline>'', ReadLine ''ADD {1, 2} 3\<newline>''] [] =
     ([Write (''Connected to kdtreed...'' @ crlf), Write (''READ ERROR'' @ crlf),
       Write (''BYE!!!'' @ crlf), Close], [], Closed)
   \<and> HandleRequest_part_000 spec_store [ReadLine ''END\<newline>'', ReadLine ''ADD {1, 2} 3\<newline>''] [] =
     ([Write (''Connected to kdtreed...'' @ crlf), Close], [], Closed)"
proof -
  have 1: "session_loop spec_store [ReadErr] [] = ([Write (''READ ERROR'' @ crlf)], [], Reading)"
    by (simp add: then_events_def)
  have 2: "session_loop_part_000 spec_store [] [] = ([], [], Reading)"
    by simp
  have v: "valid \<lparr>buffer = ''END'', position = 3, action = ''END'', point = [], data = Data 0,
          valid = True\<rparr>"
    "action \<lparr>buffer = ''END'', position = 3, action = ''END'', point = [], data = Data 0,
          valid = True\<rparr> = ''END''"
    by simp_all
  from End_farewell_then_close [OF parse_END_line v, of spec_store "[ReadErr]" "[]"
      "[Write (''READ ERROR'' @ crlf)]" "[]" "[ReadLine ''ADD {1, 2} 3\<newline>'']"] 1
    End_farewell_then_close [OF parse_END_line v, of spec_store "[]" "[]" "[]" "[]"
      "[ReadLine ''ADD {1, 2} 3\<newline>'']"] 2
  show ?thesis
    by simp
qed


lemma parse_KNN_0:
  "ParseKDtreeCommand ''KNN {0, 0} 0\<newline>'' =
     Inr \<lparr>buffer = ''KNN {0, 0} 0'', position = 10, action = ''KNN'', point = [0, 0],
          data = Data 0, valid = True\<rparr>"
  by code_simp

lemma parse_DEL_5_5:
  "ParseKDtreeCommand ''DEL {5, 5}\<newline>'' =
     Inr \<lparr>buffer = ''DEL {5, 5}'', position = 9, action = ''DEL'', point = [5, 5],
          data = Data 0, valid = True\<rparr>"
  by code_simp

lemma sorted_fst_snd:
  assumes "sorted (map f (xs @ ys))" and "a \<in> set xs" and "b \<in> set ys"
  shows "f a \<le> f b"
  using assms by (auto simp: sorted_append)

text \<open>
  C7, against the store modelled from the spec: \<open>KNearest\<close> returns \<open>min k (size of the store)\<close>
  records of the store (none for \<open>k \<le> 0\<close>, all of them when the store holds at most \<open>k\<close>),
  in ascending Euclidean distance from the query point, and no record left out is nearer
  than a record returned; the line \<open>KNN {0, 0} 0\<close> is answered with the empty result
  whatever the store holds.
\<close>

theorem KNearest_ascending_up_to_k:
  "length (store_KNearest q k s) = min (nat k) (length s)
   \<and> sorted (map (\<lambda>r. sqrt (real_of_int (dist2 q (fst r)))) (store_KNearest q k s))
   \<and> mset (store_KNearest q k s) \<subseteq># mset s
   \<and> (\<forall>a \<in> set (store_KNearest q k s). \<forall>b \<in># mset s - mset (store_KNearest q k s).
         dist2 q (fst a) \<le> dist2 q (fst b))
   \<and> (int (length s) \<le> k \<longrightarrow> mset (store_KNearest q k s) = mset s)
   \<and> (k \<le> 0 \<longrightarrow> store_KNearest q k s = [])
   \<and> session_loop spec_store [ReadLine ''KNN {0, 0} 0\<newline>''] s = ([WriteKNN []], s, Reading)"
proof -
  define f where "f = (\<lambda>r :: int list \<times> Data. dist2 q (fst r))"
  define ys where "ys = sort_key f s"
  define n where "n = nat k"
  have ys: "mset ys = mset s" "length ys = length s" "sorted (map f ys)"
    by (simp_all add: ys_def)
  have r: "store_KNearest q k s = (if k \<le> 0 then [] else take n ys)"
    by (simp add: store_KNearest_def ys_def f_def n_def)
  have split: "mset s = mset (take n ys) + mset (drop n ys)"
    by (metis append_take_drop_id mset_append ys(1))
  have 1: "length (store_KNearest q k s) = min (nat k) (length s)"
    by (simp add: r ys n_def min.commute)
  have "sorted_wrt (\<lambda>a b. f a \<le> f b) (take n ys)"
    using ys(3) by (simp add: sorted_map sorted_wrt_take)
  then have "sorted_wrt (\<lambda>a b. sqrt (real_of_int (f a)) \<le> sqrt (real_of_int (f b))) (take n ys)"
    by (rule sorted_wrt_mono_rel [rotated]) simp
  then have "sorted (map (\<lambda>r. sqrt (real_of_int (f r))) (take n ys))"
    by (simp add: sorted_map)
  then have 2: "sorted (map (\<lambda>r. sqrt (real_of_int (dist2 q (fst r)))) (store_KNearest q k s))"
    by (simp add: r f_def)
  have 3: "mset (store_KNearest q k s) \<subseteq># mset s"
    by (simp add: r split)
  have 4: "\<forall>a \<in> set (store_KNearest q k s). \<forall>b \<in># mset s - mset (store_KNearest q k s).
         dist2 q (fst a) \<le> dist2 q (fst b)"
  proof (cases "k \<le> 0")
    case True
    then show ?thesis by (simp add: r)
  next
    case False
    have "f a \<le> f b" if "a \<in> set (take n ys)" "b \<in> set (drop n ys)" for a b
      using sorted_fst_snd [of f "take n ys" "drop n ys" a b] ys(3) that by simp
    with False show ?thesis
      by (simp add: r split f_def)
  qed
  have 5: "int (length s) \<le> k \<longrightarrow> mset (store_KNearest q k s) = mset s"
  proof
    assume le: "int (length s) \<le> k"
    show "mset (store_KNearest q k s) = mset s"
    proof (cases "k \<le> 0")
      case True
      with le have "length s = 0"
        by linarith
      then have "s = []"
        by simp
      moreover from True r have "store_KNearest q k s = []"
        by simp
      ultimately show ?thesis
        by simp
    next
      case False
      with le have "length ys \<le> n"
        by (simp add: ys n_def)
      with False show ?thesis
        by (simp add: r ys)
    qed
  qed
  have 6: "k \<le> 0 \<longrightarrow> store_KNearest q k s = []"
    by (simp add: r)
  have 7: "session_loop spec_store [ReadLine ''KNN {0, 0} 0\<newline>''] s = ([WriteKNN []], s, Reading)"
    by (simp add: parse_KNN_0 dispatch_def spec_store_def store_KNearest_def then_events_def)
  from 1 2 3 4 5 6 7 show ?thesis
    by blast
qed

theorem KNearest_ascending_up_to_k_witness:
  "mset (store_KNearest [0, 0] 5 [([10, 10], Data 30), ([2, 2], Data 20), ([1, 1], Data 10)])
     = mset [([10, 10], Data 30), ([2, 2], Data 20), ([1, 1], Data 10)]
   \<and> store_KNearest [0, 0] 0 [([10, 10], Data 30), ([2, 2], Data 20), ([1, 1], Data 10)] = []
   \<and> store_KNearest [0, 0] 2 [([10, 10], Data 30), ([2, 2], Data 20), ([1, 1], Data 10)]
       = [([1, 1], Data 10), ([2, 2], Data 20)]"
proof -
  have "store_KNearest [0, 0] 2 [([10, 10], Data 30), ([2, 2], Data 20), ([1, 1], Data 10)]
       = [([1, 1], Data 10), ([2, 2], Data 20)]"
    by code_simp
  with KNearest_ascending_up_to_k
      [of "[0, 0]" 5 "[([10, 10], Data 30), ([2, 2], Data 20), ([1, 1], Data 10)]"]
    KNearest_ascending_up_to_k
      [of "[0, 0]" 0 "[([10, 10], Data 30), ([2, 2], Data 20), ([1, 1], Data 10)]"]
  show ?thesis
    by simp
qed

text \<open>
  C8: for a line that parses to a valid Delete command, sending it twice in a row produces
  the same "deleted" acknowledgment twice, whatever the tree does; against the store
  modelled from the spec the second Delete leaves the store as the first one left it, and a
  Delete of a point without a matching record leaves the store unchanged and is
  acknowledged in the same way.
\<close>

theorem Delete_twice_same_acknowledgment:
  assumes "ParseKDtreeCommand line = Inr parsed" and "valid parsed" and "action parsed = ''DEL''"
  shows "fst (session_loop tree [ReadLine line, ReadLine line] st) =
           [Lock, Unlock, WriteDeleted (point parsed), Lock, Unlock, WriteDeleted (point parsed)]
       \<and> session_loop spec_store [ReadLine line] s =
           ([Lock, Unlock, WriteDeleted (point parsed)], store_Delete (point parsed) s, Reading)
       \<and> session_loop spec_store [ReadLine line, ReadLine line] s =
           ([Lock, Unlock, WriteDeleted (point parsed), Lock, Unlock, WriteDeleted (point parsed)],
            store_Delete (point parsed) s, Reading)
       \<and> ((\<forall>r \<in> set s. fst r \<noteq> point parsed) \<longrightarrow>
            session_loop spec_store [ReadLine line] s =
              ([Lock, Unlock, WriteDeleted (point parsed)], s, Reading))"
  using assms
  by (auto simp: dispatch_def spec_store_def store_Delete_def then_events_def filter_id_conv)

theorem Delete_twice_same_acknowledgment_witness:
  "session_loop spec_store [ReadLine ''DEL {5, 5}\<newline>'', ReadLine ''DEL {5, 5}\<newline>'']
      [([5, 5], Data 1), ([1, 1], Data 2), ([5, 5], Data 3)] =
     ([Lock, Unlock, WriteDeleted [5, 5], Lock, Unlock, WriteDeleted [5, 5]],
      [([1, 1], Data 2)], Reading)
   \<and> session_loop spec_store [ReadLine ''DEL {5, 5}\<newline>''] [([1, 1], Data 2)] =
     ([Lock, Unlock, WriteDeleted [5, 5]], [([1, 1], Data 2)], Reading)"
proof -
  have v: "valid \<lparr>buffer = ''DEL {5, 5}'', position = 9, action = ''DEL'', point = [5, 5],
          data = Data 0, valid = True\<rparr>"
    "action \<lparr>buffer = ''DEL {5, 5}'', position = 9, action = ''DEL'', point = [5, 5],
          data = Data 0, valid = True\<rparr> = ''DEL''"
    by simp_all
  from Delete_twice_same_acknowledgment [OF parse_DEL_5_5 v,
      of spec_store "[]" "[([5, 5], Data 1), ([1, 1], Data 2), ([5, 5], Data 3)]"]
    Delete_twice_same_acknowledgment [OF parse_DEL_5_5 v, of spec_store "[]" "[([1, 1], Data 2)]"]
  show ?thesis
    by (simp add: store_Delete_def)
qed

text \<open>
  C10: for every input string \<open>ParseKDtreeCommand\<close> returns an expression and never panics:
  no slice of the buffer is taken beyond its end, and \<open>MakePoint\<close> only receives tokens
  matched by the point pattern, in which \<open>FindAllString\<close> finds two digit groups, so that
  \<open>rst[0]\<close> and \<open>rst[1]\<close> are in bounds.
\<close>

theorem ParseKDtreeCommand_never_panics:
  "\<exists>expr. ParseKDtreeCommand command = Inr expr"
proof -
  have "in_bounds (new_Expr (TrimSpace command))"
    by (simp add: in_bounds_def new_Expr_def)
  with safe_alternatives obtain b e'
    where "or_else (or_else IsFullCommand IsDelCommand) IsEndAction
             (new_Expr (TrimSpace command)) = Inr (b, e')"
    by (rule safeD)
  then show ?thesis
    by (simp add: ParseKDtreeCommand_def)
qed

theorem ParseKDtreeCommand_never_panics_witness:
  "\<exists>expr. ParseKDtreeCommand ''ADD {1, 2}'' = Inr expr"
  using ParseKDtreeCommand_never_panics [of "''ADD {1, 2}''"] by simp

end
